theory Spec2Isabelle
  imports Main "HOL-Library.AList"
begin

section \<open>Python values, exceptions and byte streams\<close>

text \<open>
  The program is \<^verbatim>\<open>RedisCopyDatabase.py\<close>: a wire codec (\<^verbatim>\<open>ProtocolHandler\<close>), a
  key-value server (\<^verbatim>\<open>Server\<close>) and a client. Bytes are \<^typ>\<open>char\<close>, a byte string is a
  \<^typ>\<open>string\<close>. A Python \<^verbatim>\<open>str\<close> is represented by its UTF-8 encoding, so
  \<^verbatim>\<open>data.encode('utf-8')\<close> is the identity on representations, \<^verbatim>\<open>len\<close> of the encoded
  bytes is \<open>length\<close>, and \<^verbatim>\<open>bytes.decode()\<close> succeeds exactly on well-formed UTF-8.

  The values the decoder can build and the encoder accepts: \<^verbatim>\<open>None\<close>, \<^verbatim>\<open>int\<close>,
  \<^verbatim>\<open>str\<close>, the named tuple \<^verbatim>\<open>Error(message)\<close>, \<^verbatim>\<open>list\<close> and \<^verbatim>\<open>dict\<close>. Both a simple string
  and a bulk string decode to a \<^verbatim>\<open>str\<close>, so the code has one string variant. A \<^verbatim>\<open>dict\<close> is
  an association list in insertion order.
\<close>

datatype pyval =
    PNone
  | PInt int
  | PStr string
  | PError string
  | PList "pyval list"
  | PDict "(pyval \<times> pyval) list"

text \<open>The exceptions the modelled code can raise.\<close>

datatype exc =
    Disconnect
  | CommandError string
  | ValueError
  | TypeError
  | AttributeError
  | UnicodeDecodeError

definition CR :: char where "CR = CHR 0x0D"
definition LF :: char where "LF = CHR 0x0A"
definition CRLF :: string where "CRLF = [CR, LF]"

subsection \<open>\<^verbatim>\<open>socket_file.readline()\<close>, \<^verbatim>\<open>socket_file.read(n)\<close>, \<^verbatim>\<open>rstrip(b'\r\n')\<close>\<close>

text \<open>
  The stream is the list of bytes the peer sends before it closes. \<^verbatim>\<open>readline\<close> returns
  the bytes up to and including the first LF, or all that is left when there is none.
\<close>

fun readline :: "string \<Rightarrow> string \<times> string" where
  "readline [] = ([], [])"
| "readline (c # cs) =
     (if c = LF then ([c], cs)
      else (case readline cs of (l, r) \<Rightarrow> (c # l, r)))"

text \<open>
  \<^verbatim>\<open>read(n)\<close> on the buffered reader: \<open>n = -1\<close> reads to the end of the stream, a smaller
  \<open>n\<close> raises \<^verbatim>\<open>ValueError\<close>, otherwise up to \<open>n\<close> bytes are returned (fewer at the end of the
  stream).
\<close>

definition read :: "int \<Rightarrow> string \<Rightarrow> exc + (string \<times> string)" where
  "read n s =
     (if n = -1 then Inr (s, [])
      else if n < -1 then Inl ValueError
      else Inr (take (nat n) s, drop (nat n) s))"

text \<open>\<^verbatim>\<open>rstrip(b'\r\n')\<close> removes every trailing byte that is CR or LF.\<close>

definition rstrip :: "string \<Rightarrow> string" where
  "rstrip s = rev (dropWhile (\<lambda>c. c = CR \<or> c = LF) (rev s))"

subsection \<open>\<^verbatim>\<open>bytes.decode()\<close>: well-formed UTF-8\<close>

definition between :: "nat \<Rightarrow> nat \<Rightarrow> char \<Rightarrow> bool" where
  "between lo hi c = (lo \<le> of_char c \<and> (of_char c :: nat) \<le> hi)"

fun utf8 :: "string \<Rightarrow> bool" where
  "utf8 [] = True"
| "utf8 (a # s) =
     (if between 0 0x7F a then utf8 s
      else (case s of
        [] \<Rightarrow> False
      | b # s1 \<Rightarrow>
          if between 0xC2 0xDF a then between 0x80 0xBF b \<and> utf8 s1
          else (case s1 of
            [] \<Rightarrow> False
          | c # s2 \<Rightarrow>
              if between 0xE0 0xEF a then
                (if of_char a = (0xE0 :: nat) then between 0xA0 0xBF b
                 else if of_char a = (0xED :: nat) then between 0x80 0x9F b
                 else between 0x80 0xBF b)
                \<and> between 0x80 0xBF c \<and> utf8 s2
              else (case s2 of
                [] \<Rightarrow> False
              | d # s3 \<Rightarrow>
                  between 0xF0 0xF4 a
                  \<and> (if of_char a = (0xF0 :: nat) then between 0x90 0xBF b
                     else if of_char a = (0xF4 :: nat) then between 0x80 0x8F b
                     else between 0x80 0xBF b)
                  \<and> between 0x80 0xBF c \<and> between 0x80 0xBF d \<and> utf8 s3))))"

definition decode :: "string \<Rightarrow> exc + string" where
  "decode s = (if utf8 s then Inr s else Inl UnicodeDecodeError)"

subsection \<open>\<^verbatim>\<open>int(bytes)\<close> and the decimal text of an \<^verbatim>\<open>int\<close>\<close>

definition is_digit :: "char \<Rightarrow> bool" where
  "is_digit c = between 48 57 c"

definition digit_val :: "char \<Rightarrow> nat" where
  "digit_val c = of_char c - 48"

definition is_space :: "char \<Rightarrow> bool" where
  "is_space c = (of_char c \<in> {9, 10, 11, 12, 13, 32 :: nat})"

text \<open>
  The digits of \<^verbatim>\<open>int(...)\<close> after the first one: an underscore is accepted between two
  digits only.
\<close>

fun digits_acc :: "nat \<Rightarrow> string \<Rightarrow> nat option" where
  "digits_acc a [] = Some a"
| "digits_acc a (c # cs) =
     (if is_digit c then digits_acc (10 * a + digit_val c) cs
      else if c = CHR ''_'' then
        (case cs of
           [] \<Rightarrow> None
         | d # ds \<Rightarrow> if is_digit d then digits_acc (10 * a + digit_val d) ds else None)
      else None)"

definition parse_digits :: "string \<Rightarrow> nat option" where
  "parse_digits s =
     (case s of
        [] \<Rightarrow> None
      | c # cs \<Rightarrow> if is_digit c then digits_acc (digit_val c) cs else None)"

text \<open>
  \<^verbatim>\<open>int(b)\<close> for a bytes object, base ten: surrounding ASCII white space is skipped, one
  sign is allowed, at least one digit is needed; anything else is a \<^verbatim>\<open>ValueError\<close>. The
  interpreter's limit on the number of digits of an integer text is not modelled.
\<close>

definition py_int :: "string \<Rightarrow> exc + int" where
  "py_int s =
     (let t = rev (dropWhile is_space (rev (dropWhile is_space s)));
          neg = (t \<noteq> [] \<and> hd t = CHR ''-'');
          body = (if t \<noteq> [] \<and> (hd t = CHR ''-'' \<or> hd t = CHR ''+'') then tl t else t)
      in case parse_digits body of
           None \<Rightarrow> Inl ValueError
         | Some n \<Rightarrow> Inr (if neg then - int n else int n))"

definition digit_char :: "nat \<Rightarrow> char" where
  "digit_char d = char_of (48 + d)"

function str_nat :: "nat \<Rightarrow> string" where
  "str_nat n = (if n < 10 then [digit_char n] else str_nat (n div 10) @ [digit_char (n mod 10)])"
  by pat_completeness auto
termination
  by (relation "measure (\<lambda>n. n)") auto

declare str_nat.simps [simp del]

text \<open>The text of an integer in an f-string, \<^verbatim>\<open>f"{n}"\<close>.\<close>

definition str_int :: "int \<Rightarrow> string" where
  "str_int n = (if n < 0 then CHR ''-'' # str_nat (nat (- n)) else str_nat (nat n))"

section \<open>\<^verbatim>\<open>ProtocolHandler\<close>: the encoder\<close>

text \<open>
  \<^verbatim>\<open>_write(buf, data)\<close> appends the frame of \<open>data\<close> to the buffer; the model returns the
  bytes appended (\<open>write_buf\<close>, as \<open>write\<close> is a proof command). The branches are in the order of the source's \<^verbatim>\<open>isinstance\<close> chain. Its
  last branch (\<^verbatim>\<open>CommandError\<close> for any other type) has no input in \<^typ>\<open>pyval\<close>.
\<close>

fun write_buf :: "pyval \<Rightarrow> string" where
  "write_buf (PStr s) = CHR ''$'' # str_int (int (length s)) @ CRLF @ s @ CRLF"
| "write_buf (PInt n) = CHR '':'' # str_int n @ CRLF"
| "write_buf (PError m) = CHR ''-'' # m @ CRLF"
| "write_buf (PList xs) = CHR ''*'' # str_int (int (length xs)) @ CRLF @ concat (map write_buf xs)"
| "write_buf (PDict d) =
     CHR ''%'' # str_int (int (length d)) @ CRLF
       @ concat (map (\<lambda>(k, v). write_buf k @ write_buf v) d)"
| "write_buf PNone = CHR ''$'' # ''-1'' @ CRLF"

section \<open>\<^verbatim>\<open>ProtocolHandler\<close>: the decoder\<close>

text \<open>
  Each handler takes the stream after the tag byte and returns the value with the rest of
  the stream, or the exception raised.
\<close>

definition handle_simple_string :: "string \<Rightarrow> exc + (pyval \<times> string)" where
  "handle_simple_string s =
     (case readline s of (line, r) \<Rightarrow>
        (case decode (rstrip line) of Inl e \<Rightarrow> Inl e | Inr t \<Rightarrow> Inr (PStr t, r)))"

definition handle_error :: "string \<Rightarrow> exc + (pyval \<times> string)" where
  "handle_error s =
     (case readline s of (line, r) \<Rightarrow>
        (case decode (rstrip line) of Inl e \<Rightarrow> Inl e | Inr t \<Rightarrow> Inr (PError t, r)))"

definition handle_integer :: "string \<Rightarrow> exc + (pyval \<times> string)" where
  "handle_integer s =
     (case readline s of (line, r) \<Rightarrow>
        (case py_int (rstrip line) of Inl e \<Rightarrow> Inl e | Inr n \<Rightarrow> Inr (PInt n, r)))"

definition handle_string :: "string \<Rightarrow> exc + (pyval \<times> string)" where
  "handle_string s =
     (case readline s of (line, r) \<Rightarrow>
        (case py_int (rstrip line) of
           Inl e \<Rightarrow> Inl e
         | Inr len \<Rightarrow>
             if len = -1 then Inr (PNone, r)
             else (case read (len + 2) r of
                     Inl e \<Rightarrow> Inl e
                   | Inr (b, r') \<Rightarrow>
                       (case decode (take (length b - 2) b) of
                          Inl e \<Rightarrow> Inl e
                        | Inr t \<Rightarrow> Inr (PStr t, r')))))"

text \<open>
  A \<^verbatim>\<open>list\<close> and a \<^verbatim>\<open>dict\<close> are unhashable; \<^verbatim>\<open>None\<close>, an \<^verbatim>\<open>int\<close>, a \<^verbatim>\<open>str\<close> and an
  \<^verbatim>\<open>Error\<close> (a tuple holding a \<^verbatim>\<open>str\<close>) are hashable.
\<close>

fun hashable :: "pyval \<Rightarrow> bool" where
  "hashable (PList xs) = False"
| "hashable (PDict d) = False"
| "hashable v = True"

text \<open>
  \<^verbatim>\<open>dict(pairs)\<close>: the pairs are inserted in order; a key already present keeps its
  place and takes the new value; an unhashable key raises \<^verbatim>\<open>TypeError\<close>.
\<close>

fun dict_from :: "(pyval \<times> pyval) list \<Rightarrow> (pyval \<times> pyval) list \<Rightarrow> exc + (pyval \<times> pyval) list" where
  "dict_from d [] = Inr d"
| "dict_from d ((k, v) # ps) =
     (if hashable k then dict_from (AList.update k v d) ps else Inl TypeError)"

text \<open>The slice \<^verbatim>\<open>xs[::2]\<close>; \<^verbatim>\<open>xs[1::2]\<close> is \<open>stride2 (drop 1 xs)\<close>.\<close>

fun stride2 :: "'a list \<Rightarrow> 'a list" where
  "stride2 [] = []"
| "stride2 [x] = [x]"
| "stride2 (x # y # zs) = x # stride2 zs"

text \<open>
  \<^verbatim>\<open>handle_request\<close> reads the tag byte and calls the handler registered for it; the
  \<^verbatim>\<open>KeyError\<close> of an unregistered tag is turned into \<^verbatim>\<open>CommandError('bad request')\<close>.
  \<open>handle_requests n\<close> is the comprehension
  \<^verbatim>\<open>[self.handle_request(socket_file) for _ in range(n)]\<close>.
\<close>

function handle_request :: "string \<Rightarrow> exc + (pyval \<times> string)"
  and handle_array :: "string \<Rightarrow> exc + (pyval \<times> string)"
  and handle_dict :: "string \<Rightarrow> exc + (pyval \<times> string)"
  and handle_requests :: "nat \<Rightarrow> string \<Rightarrow> exc + (pyval list \<times> string)"
where
  "handle_request s =
     (case s of
        [] \<Rightarrow> Inl Disconnect
      | first_byte # r \<Rightarrow>
          if first_byte = CHR ''+'' then handle_simple_string r
          else if first_byte = CHR ''-'' then handle_error r
          else if first_byte = CHR '':'' then handle_integer r
          else if first_byte = CHR ''$'' then handle_string r
          else if first_byte = CHR ''*'' then handle_array r
          else if first_byte = CHR ''%'' then handle_dict r
          else Inl (CommandError ''bad request''))"
| "handle_array s =
     (case readline s of (line, r) \<Rightarrow>
        (case py_int (rstrip line) of
           Inl e \<Rightarrow> Inl e
         | Inr num_elements \<Rightarrow>
             (case handle_requests (nat num_elements) r of
                Inl e \<Rightarrow> Inl e
              | Inr (elements, r') \<Rightarrow> Inr (PList elements, r'))))"
| "handle_dict s =
     (case readline s of (line, r) \<Rightarrow>
        (case py_int (rstrip line) of
           Inl e \<Rightarrow> Inl e
         | Inr num_items \<Rightarrow>
             (case handle_requests (nat (num_items * 2)) r of
                Inl e \<Rightarrow> Inl e
              | Inr (elements, r') \<Rightarrow>
                  (case dict_from [] (zip (stride2 elements) (stride2 (drop 1 elements))) of
                     Inl e \<Rightarrow> Inl e
                   | Inr d \<Rightarrow> Inr (PDict d, r')))))"
| "handle_requests n s =
     (if n = 0 then Inr ([], s)
      else (case handle_request s of
              Inl e \<Rightarrow> Inl e
            | Inr (v, r) \<Rightarrow>
                (case handle_requests (n - 1) r of
                   Inl e \<Rightarrow> Inl e
                 | Inr (vs, r') \<Rightarrow> Inr (v # vs, r'))))"
  by pat_completeness auto


text \<open>
  Termination: a successful \<^verbatim>\<open>handle_request\<close> consumes at least the tag byte, and no
  handler gives bytes back.
\<close>

lemma readline_length: "readline s = (l, r) \<Longrightarrow> length r \<le> length s"
  by (induction s arbitrary: l r) (auto split: if_splits prod.splits)

lemma handle_simple_string_length:
  "handle_simple_string s = Inr (v, r) \<Longrightarrow> length r \<le> length s"
  by (auto simp: handle_simple_string_def split: prod.splits sum.splits dest: readline_length)

lemma handle_error_length:
  "handle_error s = Inr (v, r) \<Longrightarrow> length r \<le> length s"
  by (auto simp: handle_error_def split: prod.splits sum.splits dest: readline_length)

lemma handle_integer_length:
  "handle_integer s = Inr (v, r) \<Longrightarrow> length r \<le> length s"
  by (auto simp: handle_integer_def split: prod.splits sum.splits dest: readline_length)

lemma handle_string_length:
  "handle_string s = Inr (v, r) \<Longrightarrow> length r \<le> length s"
  by (fastforce simp: handle_string_def read_def split: prod.splits sum.splits if_splits
      dest: readline_length)

lemma handle_request_length_dom:
  "handle_request_handle_array_handle_dict_handle_requests_dom (Inl (Inl s)) \<Longrightarrow>
     (\<forall>v r. handle_request s = Inr (v, r) \<longrightarrow> length r < length s)"
  "handle_request_handle_array_handle_dict_handle_requests_dom (Inl (Inr s1)) \<Longrightarrow>
     (\<forall>v r. handle_array s1 = Inr (v, r) \<longrightarrow> length r \<le> length s1)"
  "handle_request_handle_array_handle_dict_handle_requests_dom (Inr (Inl s2)) \<Longrightarrow>
     (\<forall>v r. handle_dict s2 = Inr (v, r) \<longrightarrow> length r \<le> length s2)"
  "handle_request_handle_array_handle_dict_handle_requests_dom (Inr (Inr (n, s3))) \<Longrightarrow>
     (\<forall>vs r. handle_requests n s3 = Inr (vs, r) \<longrightarrow> length r \<le> length s3)"
proof (induction rule: handle_request_handle_array_handle_dict_handle_requests.pinduct)
  case (1 s)
  show ?case
  proof (intro allI impI)
    fix v r assume a: "handle_request s = Inr (v, r)"
    from a 1(1) obtain c t where s: "s = c # t"
      by (cases s) (simp_all add: handle_request.psimps)
    have "length r \<le> length t"
    proof (cases "c = CHR ''+''")
      case True
      with a 1(1) s have "handle_simple_string t = Inr (v, r)"
        by (simp add: handle_request.psimps)
      then show ?thesis by (rule handle_simple_string_length)
    next
      case n1: False
      show ?thesis
      proof (cases "c = CHR ''-''")
        case True
        with a 1(1) s n1 have "handle_error t = Inr (v, r)"
          by (simp add: handle_request.psimps)
        then show ?thesis by (rule handle_error_length)
      next
        case n2: False
        show ?thesis
        proof (cases "c = CHR '':''")
          case True
          with a 1(1) s n1 n2 have "handle_integer t = Inr (v, r)"
            by (simp add: handle_request.psimps)
          then show ?thesis by (rule handle_integer_length)
        next
          case n3: False
          show ?thesis
          proof (cases "c = CHR ''$''")
            case True
            with a 1(1) s n1 n2 n3 have "handle_string t = Inr (v, r)"
              by (simp add: handle_request.psimps)
            then show ?thesis by (rule handle_string_length)
          next
            case n4: False
            show ?thesis
            proof (cases "c = CHR ''*''")
              case True
              with a 1(1) s n1 n2 n3 n4 have "handle_array t = Inr (v, r)"
                by (simp add: handle_request.psimps)
              with 1(2)[OF s n1 n2 n3 n4 True] show ?thesis by blast
            next
              case n5: False
              show ?thesis
              proof (cases "c = CHR ''%''")
                case True
                with a 1(1) s n1 n2 n3 n4 n5 have "handle_dict t = Inr (v, r)"
                  by (simp add: handle_request.psimps)
                with 1(3)[OF s n1 n2 n3 n4 n5 True] show ?thesis by blast
              next
                case False
                with a 1(1) s n1 n2 n3 n4 n5 show ?thesis
                  by (simp add: handle_request.psimps)
              qed
            qed
          qed
        qed
      qed
    qed
    with s show "length r < length s" by simp
  qed
next
  case (2 s)
  show ?case
  proof (intro allI impI)
    fix v r assume a: "handle_array s = Inr (v, r)"
    obtain l r0 where rl: "readline s = (l, r0)" by (cases "readline s")
    from a rl 2(1) obtain b where b: "py_int (rstrip l) = Inr b"
      by (cases "py_int (rstrip l)") (simp_all add: handle_array.psimps)
    from a rl 2(1) b obtain es where es: "handle_requests (nat b) r0 = Inr (es, r)"
      by (cases "handle_requests (nat b) r0") (auto simp: handle_array.psimps)
    from 2(2)[OF rl[symmetric] b] es have "length r \<le> length r0" by blast
    with readline_length[OF rl] show "length r \<le> length s" by simp
  qed
next
  case (3 s)
  show ?case
  proof (intro allI impI)
    fix v r assume a: "handle_dict s = Inr (v, r)"
    obtain l r0 where rl: "readline s = (l, r0)" by (cases "readline s")
    from a rl 3(1) obtain b where b: "py_int (rstrip l) = Inr b"
      by (cases "py_int (rstrip l)") (simp_all add: handle_dict.psimps)
    from a rl 3(1) b obtain es r1 where es: "handle_requests (nat (b * 2)) r0 = Inr (es, r1)"
      by (cases "handle_requests (nat (b * 2)) r0") (auto simp: handle_dict.psimps)
    from a rl 3(1) b es have "r1 = r"
      by (cases "dict_from [] (zip (stride2 es) (stride2 (drop 1 es)))")
         (simp_all add: handle_dict.psimps)
    with 3(2)[OF rl[symmetric] b] es have "length r \<le> length r0" by blast
    with readline_length[OF rl] show "length r \<le> length s" by simp
  qed
next
  case (4 n s)
  show ?case
  proof (intro allI impI)
    fix vs r assume a: "handle_requests n s = Inr (vs, r)"
    show "length r \<le> length s"
    proof (cases "n = 0")
      case True
      with a 4(1) show ?thesis by (simp add: handle_requests.psimps)
    next
      case False
      with a 4(1) obtain v r1 where h: "handle_request s = Inr (v, r1)"
        by (cases "handle_request s") (auto simp: handle_requests.psimps)
      from False a 4(1) h obtain vs' where t: "handle_requests (n - 1) r1 = Inr (vs', r)"
        by (cases "handle_requests (n - 1) r1") (auto simp: handle_requests.psimps)
      from 4(2)[OF False] h have "length r1 < length s" by blast
      moreover from 4(3)[OF False h refl] t have "length r \<le> length r1" by blast
      ultimately show ?thesis by simp
    qed
  qed
qed

lemma handle_request_dom_total:
  "All handle_request_handle_array_handle_dict_handle_requests_dom"
proof (relation "inv_image (less_than <*lex*> less_than <*lex*> less_than)
      (\<lambda>x. case x of Inl (Inl s) \<Rightarrow> (length s, 0::nat, 0::nat)
                     | Inl (Inr s) \<Rightarrow> (length s, 2, 0)
                     | Inr (Inl s) \<Rightarrow> (length s, 2, 0)
                     | Inr (Inr (n, s)) \<Rightarrow> (length s, 1, n))", goal_cases)
  case 1
  show ?case by (intro wf_inv_image wf_lex_prod wf_less_than)
next
  case (2 s c r)
  then show ?case by simp
next
  case (3 s c r)
  then show ?case by simp
next
  case (4 s l r b)
  then show ?case using readline_length[of s l r] by (auto simp: le_less)
next
  case (5 s l r b)
  then show ?case using readline_length[of s l r] by (auto simp: le_less)
next
  case (6 n s)
  then show ?case by simp
next
  case (7 n s b v r)
  then show ?case using handle_request_length_dom(1)[of s] by auto
qed

termination handle_request
  by (rule handle_request_dom_total)

declare handle_request.simps [simp del]
declare handle_array.simps [simp del]
declare handle_dict.simps [simp del]
declare handle_requests.simps [simp del]

lemma handle_request_length:
  assumes "handle_request s = Inr (v, r)"
  shows "length r < length s"
proof -
  have "handle_request_handle_array_handle_dict_handle_requests_dom (Inl (Inl s))"
    by (rule handle_request_dom_total[THEN spec])
  from handle_request_length_dom(1)[OF this, rule_format, OF assms] show ?thesis .
qed

section \<open>\<^verbatim>\<open>Server\<close>: the store and its commands\<close>

text \<open>
  \<^verbatim>\<open>self._kv\<close> is a \<^verbatim>\<open>dict\<close>: an association list in insertion order. A command
  returns its result, or the exception it raised, together with the store it leaves: an
  exception does not undo the writes made before it.
\<close>

type_synonym store = "(pyval \<times> pyval) list"
type_synonym outcome = "(exc + pyval) \<times> store"

text \<open>\<^verbatim>\<open>self._kv.get(key)\<close> for a hashable key: the value, or \<^verbatim>\<open>None\<close>.\<close>

definition lookup :: "store \<Rightarrow> pyval \<Rightarrow> pyval" where
  "lookup kv key = (case map_of kv key of None \<Rightarrow> PNone | Some v \<Rightarrow> v)"

definition get :: "store \<Rightarrow> pyval \<Rightarrow> outcome" where
  "get kv key = (if hashable key then (Inr (lookup kv key), kv) else (Inl TypeError, kv))"

definition set_kv :: "store \<Rightarrow> pyval \<Rightarrow> pyval \<Rightarrow> outcome" where
  "set_kv kv key val =
     (if hashable key then (Inr (PInt 1), AList.update key val kv) else (Inl TypeError, kv))"

text \<open>
  \<^verbatim>\<open>1 if self._kv.pop(key, None) is not None else 0\<close>. On an empty \<^verbatim>\<open>dict\<close>,
  \<^verbatim>\<open>pop\<close> with a default returns the default before it hashes the key, so an unhashable
  key raises \<^verbatim>\<open>TypeError\<close> on a store that is not empty only.
\<close>

definition delete :: "store \<Rightarrow> pyval \<Rightarrow> outcome" where
  "delete kv key =
     (if kv = [] then (Inr (PInt 0), kv)
      else if hashable key
      then (Inr (PInt (if lookup kv key \<noteq> PNone then 1 else 0)), AList.delete key kv)
      else (Inl TypeError, kv))"

definition flush :: "store \<Rightarrow> outcome" where
  "flush kv = (let kvlen = int (length kv) in (Inr (PInt kvlen), []))"

definition mget :: "store \<Rightarrow> pyval list \<Rightarrow> outcome" where
  "mget kv keys =
     (if list_all hashable keys then (Inr (PList (map (lookup kv) keys)), kv)
      else (Inl TypeError, kv))"

text \<open>The loop of \<^verbatim>\<open>mset\<close> over \<^verbatim>\<open>zip(items[::2], items[1::2])\<close>.\<close>

fun mset_loop :: "store \<Rightarrow> (pyval \<times> pyval) list \<Rightarrow> exc option \<times> store" where
  "mset_loop kv [] = (None, kv)"
| "mset_loop kv ((key, val) # ps) =
     (if hashable key then mset_loop (AList.update key val kv) ps else (Some TypeError, kv))"

definition mset :: "store \<Rightarrow> pyval list \<Rightarrow> outcome" where
  "mset kv items =
     (case mset_loop kv (zip (stride2 items) (stride2 (drop 1 items))) of
        (Some e, kv') \<Rightarrow> (Inl e, kv')
      | (None, kv') \<Rightarrow> (Inr (PInt (int (length items) div 2)), kv'))"

text \<open>
  The specification of \<^verbatim>\<open>MSET\<close>, in its own words: the pairs of the arguments taken two at a
  time, in the order given; an unpaired last argument is left out.
\<close>

fun spec_pairs :: "'a list \<Rightarrow> ('a \<times> 'a) list" where
  "spec_pairs (k # v # rest) = (k, v) # spec_pairs rest"
| "spec_pairs [x] = []"
| "spec_pairs [] = []"

text \<open>
  \<^verbatim>\<open>str.upper()\<close>. On a string of ASCII characters it maps the letters a to z to A to Z
  and leaves the other characters as they are. On a string that holds a character outside
  ASCII the result is given by the case mapping of the interpreter's Unicode tables, which
  can change letters, lengths and ASCII characters alike; these tables are not part of the
  program, so the mapping of such strings is the parameter \<open>tbl\<close>, and what is proved
  holds for every table. The strings of the closed examples are ASCII: there the table is
  never consulted, and it is taken to be the identity.
\<close>

type_synonym case_table = "string \<Rightarrow> string"

definition upper_char :: "char \<Rightarrow> char" where
  "upper_char c = (if between 97 122 c then char_of (of_char c - (32 :: nat)) else c)"

definition ascii :: "string \<Rightarrow> bool" where
  "ascii s = list_all (between 0 0x7F) s"

definition upper :: "case_table \<Rightarrow> string \<Rightarrow> string" where
  "upper tbl s = (if ascii s then map upper_char s else tbl s)"

text \<open>
  \<^verbatim>\<open>get_commands\<close>: the table from a command name to the bound method. Calling the method
  with \<^verbatim>\<open>*data[1:]\<close> raises \<^verbatim>\<open>TypeError\<close> when the number of arguments is not the one
  the method takes; \<^verbatim>\<open>mget\<close> and \<^verbatim>\<open>mset\<close> take any number.
\<close>

definition get_commands :: "(string \<times> (store \<Rightarrow> pyval list \<Rightarrow> outcome)) list" where
  "get_commands =
     [(''GET'', \<lambda>kv args. case args of [key] \<Rightarrow> get kv key | _ \<Rightarrow> (Inl TypeError, kv)),
      (''SET'', \<lambda>kv args. case args of [key, val] \<Rightarrow> set_kv kv key val
                                      | _ \<Rightarrow> (Inl TypeError, kv)),
      (''DELETE'', \<lambda>kv args. case args of [key] \<Rightarrow> delete kv key | _ \<Rightarrow> (Inl TypeError, kv)),
      (''FLUSH'', \<lambda>kv args. case args of [] \<Rightarrow> flush kv | _ \<Rightarrow> (Inl TypeError, kv)),
      (''MGET'', \<lambda>kv args. mget kv args),
      (''MSET'', \<lambda>kv args. mset kv args)]"

text \<open>
  \<^verbatim>\<open>get_response\<close>. \<^verbatim>\<open>data[0].upper()\<close> raises \<^verbatim>\<open>AttributeError\<close> when the first element
  is not a \<^verbatim>\<open>str\<close>.
\<close>

definition get_response :: "case_table \<Rightarrow> store \<Rightarrow> pyval \<Rightarrow> outcome" where
  "get_response tbl kv data =
     (case data of
        PList xs \<Rightarrow>
          (case xs of
             [] \<Rightarrow> (Inl (CommandError ''Missing command''), kv)
           | x # args \<Rightarrow>
               (case x of
                  PStr name \<Rightarrow>
                    (let command = upper tbl name in
                     case map_of get_commands command of
                       None \<Rightarrow> (Inl (CommandError (''Unrecognized command: '' @ command)), kv)
                     | Some f \<Rightarrow> f kv args)
                | _ \<Rightarrow> (Inl AttributeError, kv)))
      | _ \<Rightarrow> (Inl (CommandError ''Request must be list.''), kv))"

section \<open>\<^verbatim>\<open>Server.connection_handler\<close>\<close>

text \<open>
  A connection: the bytes the peer has sent and the handler has not read, the bytes the
  handler has written, and whether the handler is still running. The handler ends when
  its loop breaks on \<^verbatim>\<open>Disconnect\<close>, or when an exception it does not catch leaves it.
\<close>

datatype status = Open | Disconnected | Raised exc

record conn =
  inp :: string
  out :: string
  status :: status

text \<open>
  One pass of the loop body. The first \<^verbatim>\<open>try\<close> catches \<^verbatim>\<open>Disconnect\<close> only, the second
  \<^verbatim>\<open>CommandError\<close> only; \<^verbatim>\<open>write_response\<close> is reached when neither let an exception
  through. The \<^verbatim>\<open>peek\<close> and the logging calls change nothing that is modelled. When the
  read fails the handler is over, and \<open>inp\<close> is left as it was.
\<close>

definition handler_step :: "case_table \<Rightarrow> store \<Rightarrow> conn \<Rightarrow> store \<times> conn" where
  "handler_step tbl kv c =
     (case handle_request (inp c) of
        Inl e \<Rightarrow> (kv, c\<lparr>status := (if e = Disconnect then Disconnected else Raised e)\<rparr>)
      | Inr (data, rest) \<Rightarrow>
          (case get_response tbl kv data of
             (Inr resp, kv') \<Rightarrow> (kv', c\<lparr>inp := rest, out := out c @ write_buf resp\<rparr>)
           | (Inl (CommandError msg), kv') \<Rightarrow>
               (kv', c\<lparr>inp := rest, out := out c @ write_buf (PError msg)\<rparr>)
           | (Inl e, kv') \<Rightarrow> (kv', c\<lparr>inp := rest, status := Raised e\<rparr>)))"

lemma handler_step_Open:
  assumes "handler_step tbl kv c = (kv', c')" and "status c' = Open"
  shows "length (inp c') < length (inp c)"
proof (cases "handle_request (inp c)")
  case (Inl e)
  with assms show ?thesis by (auto simp: handler_step_def split: if_splits)
next
  case (Inr p)
  obtain data rest where p: "p = (data, rest)" by (cases p)
  obtain res kv1 where g: "get_response tbl kv data = (res, kv1)"
    by (cases "get_response tbl kv data")
  from Inr p have len: "length rest < length (inp c)" by (simp add: handle_request_length)
  show ?thesis
  proof (cases res)
    case (Inr resp)
    with assms \<open>handle_request (inp c) = Inr p\<close> p g len show ?thesis
      by (auto simp: handler_step_def)
  next
    case (Inl e)
    with assms \<open>handle_request (inp c) = Inr p\<close> p g len show ?thesis
      by (cases e) (auto simp: handler_step_def)
  qed
qed

text \<open>The \<^verbatim>\<open>while True\<close> loop: it runs until the handler ends.\<close>

function connection_handler :: "case_table \<Rightarrow> store \<Rightarrow> conn \<Rightarrow> store \<times> conn" where
  "connection_handler tbl kv c =
     (case handler_step tbl kv c of
        (kv', c') \<Rightarrow> if status c' = Open then connection_handler tbl kv' c' else (kv', c'))"
  by pat_completeness auto
termination
proof (relation "measure (\<lambda>(tbl, kv, c). length (inp c))", goal_cases)
  case 1
  show ?case by simp
next
  case (2 tbl kv c kv' c')
  from 2(1) have "handler_step tbl kv c = (kv', c')" by (rule sym)
  from handler_step_Open[OF this 2(2)] show ?case by simp
qed

declare connection_handler.simps [simp del]

text \<open>
  The server runs one handler for each accepted connection, all over the one store. A
  handler gives up control at its socket reads and writes only, so a pass of the loop body
  of connection \<open>i\<close> is one step of the server.
\<close>

definition serve :: "case_table \<Rightarrow> nat \<Rightarrow> store \<times> conn list \<Rightarrow> store \<times> conn list" where
  "serve tbl i srv =
     (case srv of (kv, cs) \<Rightarrow>
        if i < length cs \<and> status (cs ! i) = Open
        then (case handler_step tbl kv (cs ! i) of (kv', c') \<Rightarrow> (kv', cs[i := c']))
        else (kv, cs))"

section \<open>Values Python can hold\<close>

text \<open>
  The invariants of the Python types, which \<^typ>\<open>pyval\<close> does not enforce by itself: a
  \<^verbatim>\<open>str\<close> is text (its representation is well-formed UTF-8), and the keys of a \<^verbatim>\<open>dict\<close>
  are hashable and distinct.
\<close>

fun pyvalue :: "pyval \<Rightarrow> bool" where
  "pyvalue PNone = True"
| "pyvalue (PInt n) = True"
| "pyvalue (PStr s) = utf8 s"
| "pyvalue (PError m) = utf8 m"
| "pyvalue (PList xs) = (\<forall>x \<in> set xs. pyvalue x)"
| "pyvalue (PDict d) =
     (distinct (map fst d) \<and> (\<forall>(k, v) \<in> set d. hashable k \<and> pyvalue k \<and> pyvalue v))"

text \<open>
  A message that a line-terminated frame can carry: it holds no LF and does not end in CR.
  \<open>line_safe\<close> says so of every error message in a value.
\<close>

definition line_text :: "string \<Rightarrow> bool" where
  "line_text m = (LF \<notin> set m \<and> (m = [] \<or> last m \<noteq> CR))"

fun line_safe :: "pyval \<Rightarrow> bool" where
  "line_safe (PError m) = line_text m"
| "line_safe (PList xs) = (\<forall>x \<in> set xs. line_safe x)"
| "line_safe (PDict d) = (\<forall>(k, v) \<in> set d. line_safe k \<and> line_safe v)"
| "line_safe v = True"

text \<open>The keys and values of a \<^verbatim>\<open>dict\<close> in the order \<^verbatim>\<open>_write\<close> sends them.\<close>

fun items_of :: "('a \<times> 'a) list \<Rightarrow> 'a list" where
  "items_of [] = []"
| "items_of ((k, v) # ps) = k # v # items_of ps"

section \<open>Properties of dispatch and of the store commands\<close>

lemma upper_char_idem: "upper_char (upper_char c) = upper_char c"
proof (cases "between 97 122 c")
  case True
  then have "(of_char c :: nat) - 32 < 256"
    unfolding between_def by arith
  then have eq: "of_char (char_of (of_char c - (32::nat))) = (of_char c - 32 :: nat)"
    by simp
  from True have "\<not> 97 \<le> (of_char c :: nat) - 32"
    unfolding between_def by arith
  with eq have "\<not> between 97 122 (char_of (of_char c - (32::nat)))"
    by (simp add: between_def)
  with True show ?thesis by (simp add: upper_char_def)
next
  case False
  then show ?thesis by (simp add: upper_char_def)
qed

lemma ascii_upper_char: "between 0 0x7F c \<Longrightarrow> between 0 0x7F (upper_char c)"
  unfolding upper_char_def between_def by (cases "97 \<le> (of_char c :: nat)") auto

lemma ascii_map_upper_char: "ascii s \<Longrightarrow> ascii (map upper_char s)"
  by (induction s) (simp_all add: ascii_def ascii_upper_char)

lemma upper_ascii: "ascii s \<Longrightarrow> upper tbl s = map upper_char s"
  by (simp add: upper_def)

lemma upper_idem: "ascii s \<Longrightarrow> upper tbl (upper tbl s) = upper tbl s"
  by (simp add: upper_ascii ascii_map_upper_char upper_char_idem)

lemma upper_names:
  "upper tbl ''GET'' = ''GET''" "upper tbl ''SET'' = ''SET''" "upper tbl ''DELETE'' = ''DELETE''"
  "upper tbl ''FLUSH'' = ''FLUSH''" "upper tbl ''MGET'' = ''MGET''" "upper tbl ''MSET'' = ''MSET''"
  by (simp_all add: upper_def ascii_def upper_char_def between_def)

lemma upper_lower_names:
  "upper tbl ''get'' = ''GET''" "upper tbl ''set'' = ''SET''" "upper tbl ''delete'' = ''DELETE''"
  "upper tbl ''flush'' = ''FLUSH''" "upper tbl ''mget'' = ''MGET''" "upper tbl ''mset'' = ''MSET''"
  by (simp_all add: upper_def ascii_def upper_char_def between_def char_of_eq_iff)

lemma get_response_command:
  "get_response tbl kv (PList (PStr name # args)) =
     (case map_of get_commands (upper tbl name) of
        None \<Rightarrow> (Inl (CommandError (''Unrecognized command: '' @ upper tbl name)), kv)
      | Some f \<Rightarrow> f kv args)"
  by (simp add: get_response_def Let_def)

lemma get_response_GET:
  "upper tbl name = ''GET'' \<Longrightarrow> get_response tbl kv (PList [PStr name, key]) = get kv key"
  by (simp add: get_response_command get_commands_def)

lemma get_response_SET:
  "upper tbl name = ''SET'' \<Longrightarrow> get_response tbl kv (PList [PStr name, key, val]) = set_kv kv key val"
  by (simp add: get_response_command get_commands_def)

lemma get_response_DELETE:
  "upper tbl name = ''DELETE'' \<Longrightarrow> get_response tbl kv (PList [PStr name, key]) = delete kv key"
  by (simp add: get_response_command get_commands_def)

lemma get_response_FLUSH:
  "upper tbl name = ''FLUSH'' \<Longrightarrow> get_response tbl kv (PList [PStr name]) = flush kv"
  by (simp add: get_response_command get_commands_def)

lemma get_response_MGET:
  "upper tbl name = ''MGET'' \<Longrightarrow> get_response tbl kv (PList (PStr name # keys)) = mget kv keys"
  by (simp add: get_response_command get_commands_def)

lemma get_response_MSET:
  "upper tbl name = ''MSET'' \<Longrightarrow> get_response tbl kv (PList (PStr name # items)) = mset kv items"
  by (simp add: get_response_command get_commands_def)

lemma lookup_update: "lookup (AList.update k v kv) k = v"
  by (simp add: lookup_def update_conv')

lemma lookup_delete: "lookup (AList.delete k kv) k = PNone"
  by (simp add: lookup_def delete_conv')

lemma lookup_absent: "map_of kv k = None \<Longrightarrow> lookup kv k = PNone"
  by (simp add: lookup_def)

text \<open>
  C6. \<^verbatim>\<open>FLUSH\<close> returns the number of entries the store held and leaves the store empty;
  a second \<^verbatim>\<open>FLUSH\<close> right after it returns 0. The keys of the store stay distinct under
  every request, so the length of the list is the number of entries.
\<close>

theorem flush_count_and_empty:
  "flush kv = (Inr (PInt (int (length kv))), [])
   \<and> get_response tbl kv (PList [PStr ''FLUSH'']) = (Inr (PInt (int (length kv))), [])
   \<and> get_response tbl (snd (get_response tbl kv (PList [PStr ''FLUSH''])))
        (PList [PStr ''FLUSH'']) = (Inr (PInt 0), [])
   \<and> (distinct (map fst kv) \<longrightarrow> length kv = card (dom (map_of kv)))"
proof -
  have f: "\<And>s. flush s = (Inr (PInt (int (length s))), [])"
    by (simp add: flush_def)
  have g: "\<And>s. get_response tbl s (PList [PStr ''FLUSH'']) = flush s"
    by (rule get_response_FLUSH) (rule upper_names)
  have d: "distinct (map fst kv) \<longrightarrow> length kv = card (dom (map_of kv))"
  proof
    assume "distinct (map fst kv)"
    from distinct_card[OF this] show "length kv = card (dom (map_of kv))"
      by (simp add: dom_map_of_conv_image_fst)
  qed
  from f g d show ?thesis by simp
qed

theorem flush_count_and_empty_witness:
  "distinct (map fst [(PStr ''a'', PStr ''1''), (PStr ''b'', PInt 2)])
   \<and> flush [(PStr ''a'', PStr ''1''), (PStr ''b'', PInt 2)] = (Inr (PInt 2), [])
   \<and> get_response (\<lambda>s. s) (snd (get_response (\<lambda>s. s) [(PStr ''a'', PStr ''1''), (PStr ''b'', PInt 2)]
          (PList [PStr ''FLUSH''])))
        (PList [PStr ''FLUSH'']) = (Inr (PInt 0), [])
   \<and> card (dom (map_of [(PStr ''a'', PStr ''1''), (PStr ''b'', PInt 2)])) = 2"
proof -
  have d: "distinct (map fst [(PStr ''a'', PStr ''1''), (PStr ''b'', PInt 2)])"
    by simp
  note t = flush_count_and_empty [where kv = "[(PStr ''a'', PStr ''1''), (PStr ''b'', PInt 2)]"
      and tbl = "\<lambda>s. s"]
  from t have 1: "flush [(PStr ''a'', PStr ''1''), (PStr ''b'', PInt 2)] = (Inr (PInt 2), [])"
    by simp
  from t have 2: "get_response (\<lambda>s. s) (snd (get_response (\<lambda>s. s) [(PStr ''a'', PStr ''1''), (PStr ''b'', PInt 2)]
          (PList [PStr ''FLUSH''])))
        (PList [PStr ''FLUSH'']) = (Inr (PInt 0), [])"
    by blast
  from t d have 3: "card (dom (map_of [(PStr ''a'', PStr ''1''), (PStr ''b'', PInt 2)])) = 2"
    by simp
  from d 1 2 3 show ?thesis by blast
qed

text \<open>
  C8. For a hashable key (every \<^verbatim>\<open>str\<close> is one), \<^verbatim>\<open>GET\<close> on a key absent from the store
  returns \<^verbatim>\<open>None\<close> and leaves the store as it is; \<^verbatim>\<open>SET\<close> returns 1, and a \<^verbatim>\<open>GET\<close> of the
  same key on the store it leaves returns the value set.
\<close>

theorem get_absent_and_set_get:
  assumes "hashable k"
  shows "(map_of kv k = None \<longrightarrow> get_response tbl kv (PList [PStr ''GET'', k]) = (Inr PNone, kv))
       \<and> fst (get_response tbl kv (PList [PStr ''SET'', k, v])) = Inr (PInt 1)
       \<and> fst (get_response tbl (snd (get_response tbl kv (PList [PStr ''SET'', k, v])))
                (PList [PStr ''GET'', k])) = Inr v"
proof -
  have g: "\<And>s. get_response tbl s (PList [PStr ''GET'', k]) = get s k"
    by (rule get_response_GET) (rule upper_names)
  have s: "get_response tbl kv (PList [PStr ''SET'', k, v]) = set_kv kv k v"
    by (rule get_response_SET) (rule upper_names)
  from assms show ?thesis
    by (simp add: g s get_def set_kv_def lookup_update lookup_absent)
qed

theorem get_absent_and_set_get_witness:
  "get_response (\<lambda>s. s) [] (PList [PStr ''GET'', PStr ''a'']) = (Inr PNone, [])
   \<and> fst (get_response (\<lambda>s. s) [] (PList [PStr ''SET'', PStr ''a'', PStr ''1''])) = Inr (PInt 1)
   \<and> fst (get_response (\<lambda>s. s) (snd (get_response (\<lambda>s. s) [] (PList [PStr ''SET'', PStr ''a'', PStr ''1''])))
            (PList [PStr ''GET'', PStr ''a''])) = Inr (PStr ''1'')"
  using get_absent_and_set_get [where k = "PStr ''a''" and kv = "[]" and v = "PStr ''1''"
      and tbl = "\<lambda>s. s"]
  by simp

lemma mset_loop_error: "mset_loop kv ps = (Some e, kv') \<Longrightarrow> e = TypeError"
  by (induction kv ps rule: mset_loop.induct) (auto split: if_splits)

lemma get_no_CommandError: "fst (get kv k) \<noteq> Inl (CommandError m)"
  by (simp add: get_def)

lemma set_kv_no_CommandError: "fst (set_kv kv k v) \<noteq> Inl (CommandError m)"
  by (simp add: set_kv_def)

lemma delete_no_CommandError: "fst (delete kv k) \<noteq> Inl (CommandError m)"
  by (simp add: delete_def)

lemma flush_no_CommandError: "fst (flush kv) \<noteq> Inl (CommandError m)"
  by (simp add: flush_def)

lemma mget_no_CommandError: "fst (mget kv ks) \<noteq> Inl (CommandError m)"
  by (simp add: mget_def)

lemma mset_no_CommandError: "fst (mset kv items) \<noteq> Inl (CommandError m)"
proof (cases "mset_loop kv (zip (stride2 items) (stride2 (drop 1 items)))")
  case (Pair r kv')
  show ?thesis
  proof (cases r)
    case None
    with Pair show ?thesis by (simp add: mset_def)
  next
    case (Some e)
    with Pair have "e = TypeError" by (simp add: mset_loop_error)
    with Pair Some show ?thesis by (simp add: mset_def)
  qed
qed

lemma command_no_CommandError:
  assumes "map_of get_commands c = Some f"
  shows "fst (f kv args) \<noteq> Inl (CommandError m)"
proof -
  from assms consider
      "f = (\<lambda>kv args. case args of [key] \<Rightarrow> get kv key | _ \<Rightarrow> (Inl TypeError, kv))"
    | "f = (\<lambda>kv args. case args of [key, val] \<Rightarrow> set_kv kv key val | _ \<Rightarrow> (Inl TypeError, kv))"
    | "f = (\<lambda>kv args. case args of [key] \<Rightarrow> delete kv key | _ \<Rightarrow> (Inl TypeError, kv))"
    | "f = (\<lambda>kv args. case args of [] \<Rightarrow> flush kv | _ \<Rightarrow> (Inl TypeError, kv))"
    | "f = (\<lambda>kv args. mget kv args)"
    | "f = (\<lambda>kv args. mset kv args)"
    by (auto simp: get_commands_def split: if_splits)
  then show ?thesis
  proof cases
    case 1
    then show ?thesis by (simp add: get_no_CommandError split: list.splits)
  next
    case 2
    then show ?thesis by (simp add: set_kv_no_CommandError split: list.splits)
  next
    case 3
    then show ?thesis by (simp add: delete_no_CommandError split: list.splits)
  next
    case 4
    then show ?thesis by (simp add: flush_no_CommandError split: list.splits)
  next
    case 5
    then show ?thesis by (simp add: mget_no_CommandError)
  next
    case 6
    then show ?thesis by (simp add: mset_no_CommandError)
  qed
qed

lemma get_response_not_list:
  "(\<forall>xs. data \<noteq> PList xs) \<Longrightarrow>
     get_response tbl kv data = (Inl (CommandError ''Request must be list.''), kv)"
  by (cases data) (simp_all add: get_response_def)

lemma get_response_empty:
  "get_response tbl kv (PList []) = (Inl (CommandError ''Missing command''), kv)"
  by (simp add: get_response_def)

lemma get_response_unrecognized:
  "upper tbl name \<notin> fst ` set get_commands \<Longrightarrow>
     get_response tbl kv (PList (PStr name # args)) =
       (Inl (CommandError (''Unrecognized command: '' @ upper tbl name)), kv)"
  by (simp add: get_response_command map_of_eq_None_iff[THEN iffD2])

lemma get_response_CommandError_store:
  assumes "fst (get_response tbl kv data) = Inl (CommandError m)"
  shows "snd (get_response tbl kv data) = kv"
proof (cases data)
  case (PList xs)
  show ?thesis
  proof (cases xs)
    case Nil
    with PList show ?thesis by (simp add: get_response_empty)
  next
    case (Cons x args)
    show ?thesis
    proof (cases x)
      case (PStr name)
      show ?thesis
      proof (cases "map_of get_commands (upper tbl name)")
        case None
        with PList Cons PStr show ?thesis by (simp add: get_response_command)
      next
        case (Some f)
        with PList Cons PStr assms command_no_CommandError[OF Some, of kv args m]
        show ?thesis by (simp add: get_response_command)
      qed
    qed (use PList Cons in \<open>simp_all add: get_response_def\<close>)
  qed
qed (simp_all add: get_response_def)

lemma handler_step_CommandError:
  assumes "handle_request (inp c) = Inr (data, rest)"
    and "fst (get_response tbl kv data) = Inl (CommandError m)"
  shows "handler_step tbl kv c = (kv, c\<lparr>inp := rest, out := out c @ write_buf (PError m)\<rparr>)"
proof -
  from assms(2) get_response_CommandError_store[OF assms(2)]
  have "get_response tbl kv data = (Inl (CommandError m), kv)"
    by (cases "get_response tbl kv data") simp
  with assms(1) show ?thesis by (simp add: handler_step_def)
qed

text \<open>
  C9. When dispatch raises a command error (the request is not a list, is the empty list,
  or names a command that is not in the table) the store is left as it was, and the
  handler answers with the error value and stays open. No command raises a command error,
  so this covers every command error of dispatch.
\<close>

theorem command_error_leaves_store:
  "((\<forall>xs. data \<noteq> PList xs) \<longrightarrow>
      get_response tbl kv data = (Inl (CommandError ''Request must be list.''), kv))
   \<and> get_response tbl kv (PList []) = (Inl (CommandError ''Missing command''), kv)
   \<and> (upper tbl name \<notin> fst ` set get_commands \<longrightarrow>
        get_response tbl kv (PList (PStr name # args)) =
          (Inl (CommandError (''Unrecognized command: '' @ upper tbl name)), kv))
   \<and> (fst (get_response tbl kv data) = Inl (CommandError m) \<longrightarrow>
        snd (get_response tbl kv data) = kv)
   \<and> (handle_request (inp c) = Inr (data, rest)
        \<and> fst (get_response tbl kv data) = Inl (CommandError m) \<longrightarrow>
        handler_step tbl kv c = (kv, c\<lparr>inp := rest, out := out c @ write_buf (PError m)\<rparr>))"
  using get_response_not_list[where data = data and kv = kv and tbl = tbl]
    get_response_empty[where kv = kv and tbl = tbl]
    get_response_unrecognized[where name = name and kv = kv and args = args and tbl = tbl]
    get_response_CommandError_store[where kv = kv and data = data and m = m and tbl = tbl]
    handler_step_CommandError[where c = c and data = data and rest = rest and kv = kv
      and m = m and tbl = tbl]
  by blast


theorem command_error_leaves_store_witness:
  "get_response (\<lambda>s. s) [(PStr ''a'', PInt 1)] (PInt 5) =
     (Inl (CommandError ''Request must be list.''), [(PStr ''a'', PInt 1)])
   \<and> get_response (\<lambda>s. s) [(PStr ''a'', PInt 1)] (PList [PStr ''foo'']) =
       (Inl (CommandError ''Unrecognized command: FOO''), [(PStr ''a'', PInt 1)])
   \<and> handler_step (\<lambda>s. s) [(PStr ''a'', PInt 1)]
         \<lparr>inp = write_buf (PList [PStr ''foo'']), out = [], status = Open\<rparr> =
       ([(PStr ''a'', PInt 1)],
        \<lparr>inp = [], out = write_buf (PError ''Unrecognized command: FOO''), status = Open\<rparr>)"
proof -
  let ?kv = "[(PStr ''a'', PInt 1)]"
  let ?c = "\<lparr>inp = write_buf (PList [PStr ''foo'']), out = [], status = Open\<rparr>"
  have d: "handle_request (inp ?c) = Inr (PList [PStr ''foo''], [])"
    by code_simp
  have u: "upper (\<lambda>s. s) ''foo'' \<notin> fst ` set get_commands"
    by code_simp
  have uf: "upper (\<lambda>s. s) ''foo'' = ''FOO''"
    by code_simp
  have nl: "\<forall>xs. PInt 5 \<noteq> PList xs"
    by simp
  from command_error_leaves_store[where data = "PInt 5" and kv = ?kv and tbl = "\<lambda>s. s"] nl
  have 1: "get_response (\<lambda>s. s) ?kv (PInt 5) = (Inl (CommandError ''Request must be list.''), ?kv)"
    by blast
  note t = command_error_leaves_store[where data = "PList [PStr ''foo'']" and kv = ?kv
      and name = "''foo''" and args = "[]" and c = ?c and rest = "[]"
      and m = "''Unrecognized command: FOO''" and tbl = "\<lambda>s. s"]
  from t u uf
  have 2: "get_response (\<lambda>s. s) ?kv (PList [PStr ''foo'']) =
      (Inl (CommandError ''Unrecognized command: FOO''), ?kv)"
    by simp
  with t d
  have 3: "handler_step (\<lambda>s. s) ?kv ?c =
      (?kv, ?c\<lparr>inp := [], out := out ?c @ write_buf (PError ''Unrecognized command: FOO'')\<rparr>)"
    by simp
  from 1 2 3 show ?thesis by simp
qed

subsection \<open>The keys of the store stay distinct\<close>

lemma mset_loop_distinct:
  "distinct (map fst kv) \<Longrightarrow> distinct (map fst (snd (mset_loop kv ps)))"
  by (induction kv ps rule: mset_loop.induct) (simp_all add: distinct_update)

lemma command_distinct:
  assumes "map_of get_commands c = Some f" and "distinct (map fst kv)"
  shows "distinct (map fst (snd (f kv args)))"
proof -
  from assms(1) consider
      "f = (\<lambda>kv args. case args of [key] \<Rightarrow> get kv key | _ \<Rightarrow> (Inl TypeError, kv))"
    | "f = (\<lambda>kv args. case args of [key, val] \<Rightarrow> set_kv kv key val | _ \<Rightarrow> (Inl TypeError, kv))"
    | "f = (\<lambda>kv args. case args of [key] \<Rightarrow> delete kv key | _ \<Rightarrow> (Inl TypeError, kv))"
    | "f = (\<lambda>kv args. case args of [] \<Rightarrow> flush kv | _ \<Rightarrow> (Inl TypeError, kv))"
    | "f = (\<lambda>kv args. mget kv args)"
    | "f = (\<lambda>kv args. mset kv args)"
    by (auto simp: get_commands_def split: if_splits)
  then show ?thesis
  proof cases
    case 1
    with assms(2) show ?thesis by (simp add: get_def split: list.splits)
  next
    case 2
    with assms(2) show ?thesis by (simp add: set_kv_def distinct_update split: list.splits)
  next
    case 3
    with assms(2) show ?thesis by (simp add: delete_def distinct_delete split: list.splits)
  next
    case 4
    with assms(2) show ?thesis by (simp add: flush_def split: list.splits)
  next
    case 5
    with assms(2) show ?thesis by (simp add: mget_def)
  next
    case 6
    have "snd (mset kv args) = snd (mset_loop kv (zip (stride2 args) (stride2 (drop 1 args))))"
      by (simp add: mset_def split: prod.splits option.splits)
    with 6 mset_loop_distinct[OF assms(2)] show ?thesis by simp
  qed
qed

lemma get_response_distinct:
  assumes "distinct (map fst kv)"
  shows "distinct (map fst (snd (get_response tbl kv data)))"
proof (cases data)
  case (PList xs)
  show ?thesis
  proof (cases xs)
    case Nil
    with PList assms show ?thesis by (simp add: get_response_empty)
  next
    case (Cons x args)
    show ?thesis
    proof (cases x)
      case (PStr name)
      show ?thesis
      proof (cases "map_of get_commands (upper tbl name)")
        case None
        with PList Cons PStr assms show ?thesis by (simp add: get_response_command)
      next
        case (Some f)
        with PList Cons PStr command_distinct[OF Some assms, of args]
        show ?thesis by (simp add: get_response_command)
      qed
    qed (use PList Cons assms in \<open>simp_all add: get_response_def\<close>)
  qed
qed (use assms in \<open>simp_all add: get_response_def\<close>)

text \<open>
  C3. \<^verbatim>\<open>DELETE\<close> tells a present key from an absent one by the value popped, with
  \<^verbatim>\<open>None\<close> as the default: a key bound to \<^verbatim>\<open>None\<close> is present, is removed, and \<^verbatim>\<open>DELETE\<close>
  returns 0. Here \<^verbatim>\<open>SET a None\<close> binds the key, and \<^verbatim>\<open>DELETE a\<close> on that store returns 0.
\<close>

theorem delete_key_bound_to_None:
  "get_response tbl [] (PList [PStr ''SET'', PStr ''a'', PNone]) =
     (Inr (PInt 1), [(PStr ''a'', PNone)])
   \<and> map_of [(PStr ''a'', PNone)] (PStr ''a'') = Some PNone
   \<and> get_response tbl [(PStr ''a'', PNone)] (PList [PStr ''DELETE'', PStr ''a'']) =
       (Inr (PInt 0), [])"
proof -
  have s: "get_response tbl [] (PList [PStr ''SET'', PStr ''a'', PNone]) =
      set_kv [] (PStr ''a'') PNone"
    by (rule get_response_SET) (rule upper_names)
  have d: "get_response tbl [(PStr ''a'', PNone)] (PList [PStr ''DELETE'', PStr ''a'']) =
      delete [(PStr ''a'', PNone)] (PStr ''a'')"
    by (rule get_response_DELETE) (rule upper_names)
  show ?thesis
    by (simp add: s d set_kv_def delete_def lookup_def)
qed

text \<open>What \<^verbatim>\<open>DELETE\<close> does in general: it returns 1 exactly when the key was bound to a
  value other than \<^verbatim>\<open>None\<close>, and the key reads as \<^verbatim>\<open>None\<close> afterwards.\<close>

lemma delete_result:
  assumes "hashable k"
  shows "delete kv k =
      (Inr (PInt (if \<exists>v. map_of kv k = Some v \<and> v \<noteq> PNone then 1 else 0)),
       AList.delete k kv)"
    and "lookup (snd (delete kv k)) k = PNone"
  using assms by (auto simp: delete_def lookup_def delete_conv' split: option.splits)

text \<open>
  C7. Dispatch upper-cases the first element only: the command is looked up under
  \<^verbatim>\<open>data[0].upper()\<close> and is called with the other elements as they are, whatever the case
  mapping of the interpreter does outside ASCII. A name dispatches as its upper-case form
  does wherever upper-casing the upper-case form changes nothing, which is so of every
  ASCII name; so \<^verbatim>\<open>set\<close> dispatches as \<^verbatim>\<open>SET\<close> does, and it stores the key and the value it
  was given, which a \<^verbatim>\<open>get\<close> of that key, in that case, reads back.
\<close>

theorem dispatch_upper_cases_name_only:
  "get_response tbl kv (PList (PStr name # args)) =
     (case map_of get_commands (upper tbl name) of
        None \<Rightarrow> (Inl (CommandError (''Unrecognized command: '' @ upper tbl name)), kv)
      | Some f \<Rightarrow> f kv args)
   \<and> (upper tbl (upper tbl name) = upper tbl name \<longrightarrow>
        get_response tbl kv (PList (PStr name # args)) =
          get_response tbl kv (PList (PStr (upper tbl name) # args)))
   \<and> (ascii name \<longrightarrow>
        upper tbl name = map upper_char name
        \<and> get_response tbl kv (PList (PStr name # args)) =
            get_response tbl kv (PList (PStr (map upper_char name) # args)))
   \<and> get_response tbl kv (PList (PStr ''set'' # args)) =
       get_response tbl kv (PList (PStr ''SET'' # args))
   \<and> get_response tbl kv (PList [PStr ''set'', k, v]) =
       (if hashable k then (Inr (PInt 1), AList.update k v kv) else (Inl TypeError, kv))
   \<and> get_response tbl kv (PList [PStr ''set'', PStr k', PStr v']) =
       (Inr (PInt 1), AList.update (PStr k') (PStr v') kv)
   \<and> get_response tbl (AList.update (PStr k') (PStr v') kv) (PList [PStr ''get'', PStr k']) =
       (Inr (PStr v'), AList.update (PStr k') (PStr v') kv)"
proof -
  have 1: "\<And>n. get_response tbl kv (PList (PStr n # args)) =
     (case map_of get_commands (upper tbl n) of
        None \<Rightarrow> (Inl (CommandError (''Unrecognized command: '' @ upper tbl n)), kv)
      | Some f \<Rightarrow> f kv args)"
    by (rule get_response_command)
  have same: "\<And>a b. upper tbl a = upper tbl b \<Longrightarrow>
      get_response tbl kv (PList (PStr a # args)) = get_response tbl kv (PList (PStr b # args))"
    by (simp only: 1)
  have 2: "upper tbl (upper tbl name) = upper tbl name \<longrightarrow>
        get_response tbl kv (PList (PStr name # args)) =
          get_response tbl kv (PList (PStr (upper tbl name) # args))"
  proof
    assume "upper tbl (upper tbl name) = upper tbl name"
    then have "upper tbl name = upper tbl (upper tbl name)"
      by (rule sym)
    then show "get_response tbl kv (PList (PStr name # args)) =
          get_response tbl kv (PList (PStr (upper tbl name) # args))"
      by (rule same)
  qed
  have 3: "ascii name \<longrightarrow>
        upper tbl name = map upper_char name
        \<and> get_response tbl kv (PList (PStr name # args)) =
            get_response tbl kv (PList (PStr (map upper_char name) # args))"
  proof
    assume a: "ascii name"
    then have u: "upper tbl name = map upper_char name"
      by (rule upper_ascii)
    from upper_idem[OF a, of tbl] have "upper tbl name = upper tbl (map upper_char name)"
      by (simp only: u)
    then have "get_response tbl kv (PList (PStr name # args)) =
            get_response tbl kv (PList (PStr (map upper_char name) # args))"
      by (rule same)
    with u show "upper tbl name = map upper_char name
        \<and> get_response tbl kv (PList (PStr name # args)) =
            get_response tbl kv (PList (PStr (map upper_char name) # args))"
      by blast
  qed
  have 4: "get_response tbl kv (PList (PStr ''set'' # args)) =
       get_response tbl kv (PList (PStr ''SET'' # args))"
    by (rule same) (simp only: upper_names upper_lower_names)
  have 5: "\<And>k v. get_response tbl kv (PList [PStr ''set'', k, v]) =
       (if hashable k then (Inr (PInt 1), AList.update k v kv) else (Inl TypeError, kv))"
    by (simp add: get_response_SET upper_lower_names set_kv_def)
  have 6: "get_response tbl kv (PList [PStr ''set'', PStr k', PStr v']) =
       (Inr (PInt 1), AList.update (PStr k') (PStr v') kv)"
    by (simp add: 5)
  have 7: "get_response tbl (AList.update (PStr k') (PStr v') kv)
       (PList [PStr ''get'', PStr k']) =
       (Inr (PStr v'), AList.update (PStr k') (PStr v') kv)"
    by (simp add: get_response_GET upper_lower_names get_def lookup_update)
  from 1[of name] 2 3 4 5[of k v] 6 7 show ?thesis by blast
qed

theorem dispatch_upper_cases_name_only_witness:
  "ascii ''sEt''
   \<and> upper (\<lambda>s. s) (upper (\<lambda>s. s) ''sEt'') = upper (\<lambda>s. s) ''sEt''
   \<and> get_response (\<lambda>s. s) [] (PList [PStr ''sEt'', PStr ''Key'', PStr ''Val'']) =
       get_response (\<lambda>s. s) [] (PList [PStr ''SET'', PStr ''Key'', PStr ''Val''])
   \<and> get_response (\<lambda>s. s) [] (PList [PStr ''set'', PStr ''Key'', PStr ''Val'']) =
       (Inr (PInt 1), [(PStr ''Key'', PStr ''Val'')])
   \<and> get_response (\<lambda>s. s) [(PStr ''Key'', PStr ''Val'')] (PList [PStr ''get'', PStr ''Key'']) =
       (Inr (PStr ''Val''), [(PStr ''Key'', PStr ''Val'')])
   \<and> get_response (\<lambda>s. s) [(PStr ''Key'', PStr ''Val'')] (PList [PStr ''get'', PStr ''KEY'']) =
       (Inr PNone, [(PStr ''Key'', PStr ''Val'')])"
proof -
  have a: "ascii ''sEt''"
    by (simp add: ascii_def between_def)
  have m: "map upper_char ''sEt'' = ''SET''"
    by (simp add: upper_char_def between_def char_of_eq_iff)
  have i: "upper (\<lambda>s. s) (upper (\<lambda>s. s) ''sEt'') = upper (\<lambda>s. s) ''sEt''"
    using a by (rule upper_idem)
  note t = dispatch_upper_cases_name_only[where tbl = "\<lambda>s. s" and kv = "[]"
      and name = "''sEt''" and args = "[PStr ''Key'', PStr ''Val'']"
      and k' = "''Key''" and v' = "''Val''"]
  have u: "AList.update (PStr ''Key'') (PStr ''Val'') [] = [(PStr ''Key'', PStr ''Val'')]"
    by simp
  from t a have "get_response (\<lambda>s. s) [] (PList [PStr ''sEt'', PStr ''Key'', PStr ''Val'']) =
       get_response (\<lambda>s. s) [] (PList [PStr (map upper_char ''sEt''), PStr ''Key'', PStr ''Val''])"
    by blast
  then have 1: "get_response (\<lambda>s. s) [] (PList [PStr ''sEt'', PStr ''Key'', PStr ''Val'']) =
       get_response (\<lambda>s. s) [] (PList [PStr ''SET'', PStr ''Key'', PStr ''Val''])"
    by (simp only: m)
  from t have "get_response (\<lambda>s. s) [] (PList [PStr ''set'', PStr ''Key'', PStr ''Val'']) =
       (Inr (PInt 1), AList.update (PStr ''Key'') (PStr ''Val'') [])"
    by blast
  with u have 2: "get_response (\<lambda>s. s) [] (PList [PStr ''set'', PStr ''Key'', PStr ''Val'']) =
     (Inr (PInt 1), [(PStr ''Key'', PStr ''Val'')])"
    by simp
  from t have "get_response (\<lambda>s. s) (AList.update (PStr ''Key'') (PStr ''Val'') [])
      (PList [PStr ''get'', PStr ''Key'']) =
      (Inr (PStr ''Val''), AList.update (PStr ''Key'') (PStr ''Val'') [])"
    by blast
  with u have 3: "get_response (\<lambda>s. s) [(PStr ''Key'', PStr ''Val'')]
      (PList [PStr ''get'', PStr ''Key'']) = (Inr (PStr ''Val''), [(PStr ''Key'', PStr ''Val'')])"
    by simp
  have 4: "get_response (\<lambda>s. s) [(PStr ''Key'', PStr ''Val'')]
      (PList [PStr ''get'', PStr ''KEY'']) = (Inr PNone, [(PStr ''Key'', PStr ''Val'')])"
    by (simp add: get_response_GET upper_lower_names get_def lookup_def)
  from a i 1 2 3 4 show ?thesis by blast
qed

lemma stride2_Cons: "stride2 (x # xs) = x # stride2 (drop 1 xs)"
  by (cases xs) simp_all

lemma zip_slices: "zip (stride2 xs) (stride2 (drop 1 xs)) = spec_pairs xs"
proof (induction xs rule: spec_pairs.induct)
  case (1 k v rest)
  have "zip (stride2 (k # v # rest)) (stride2 (drop 1 (k # v # rest))) =
      zip (k # stride2 rest) (v # stride2 (drop 1 rest))"
    by (simp add: stride2_Cons[of v rest])
  with 1 show ?case by simp
qed simp_all

lemma length_spec_pairs: "length (spec_pairs xs) = length xs div 2"
  by (induction xs rule: spec_pairs.induct) simp_all

lemma spec_pairs_snoc:
  "even (length xs) \<Longrightarrow> spec_pairs (xs @ [x]) = spec_pairs xs"
  by (induction xs rule: spec_pairs.induct) simp_all

lemma mset_loop_hashable:
  "list_all (\<lambda>p. hashable (fst p)) ps \<Longrightarrow>
     mset_loop kv ps = (None, foldl (\<lambda>s p. AList.update (fst p) (snd p) s) kv ps)"
  by (induction kv ps rule: mset_loop.induct) simp_all

lemma map_of_foldl_update:
  "map_of (foldl (\<lambda>s p. AList.update (fst p) (snd p) s) kv ps) =
     map_of kv ++ map_of (rev ps)"
proof (induction ps arbitrary: kv)
  case Nil
  show ?case by simp
next
  case (Cons p ps)
  have "map_of (foldl (\<lambda>s p. AList.update (fst p) (snd p) s) kv (p # ps)) =
      map_of (AList.update (fst p) (snd p) kv) ++ map_of (rev ps)"
    by (simp add: Cons.IH)
  also have "\<dots> = (map_of kv ++ map_of [p]) ++ map_of (rev ps)"
    by (cases p) (simp add: update_conv')
  also have "\<dots> = map_of kv ++ map_of (rev (p # ps))"
    by simp
  finally show ?case .
qed

text \<open>
  C5. For an argument list of length \<open>n\<close> whose keys are hashable, \<^verbatim>\<open>MSET\<close> writes the
  \<open>n div 2\<close> pairs taken two at a time, in the order given (a later pair for the same key
  wins), and returns \<open>n div 2\<close>. An unpaired last argument is dropped: with it the result and
  the store are the same as without it.
\<close>

theorem mset_pairs_in_order:
  assumes "list_all (\<lambda>p. hashable (fst p)) (spec_pairs items)"
  shows "mset kv items =
      (Inr (PInt (int (length items div 2))),
       foldl (\<lambda>s p. AList.update (fst p) (snd p) s) kv (spec_pairs items))
    \<and> length (spec_pairs items) = length items div 2
    \<and> map_of (snd (mset kv items)) = map_of kv ++ map_of (rev (spec_pairs items))
    \<and> (even (length items) \<longrightarrow> mset kv (items @ [x]) = mset kv items)
    \<and> get_response tbl kv (PList (PStr ''MSET'' # items)) = mset kv items"
proof -
  have 1: "mset kv items =
      (Inr (PInt (int (length items div 2))),
       foldl (\<lambda>s p. AList.update (fst p) (snd p) s) kv (spec_pairs items))"
    unfolding mset_def zip_slices using assms by (simp add: mset_loop_hashable zdiv_int)
  have 2: "length (spec_pairs items) = length items div 2"
    by (rule length_spec_pairs)
  have 3: "map_of (snd (mset kv items)) = map_of kv ++ map_of (rev (spec_pairs items))"
    by (simp only: 1 snd_conv map_of_foldl_update)
  have 4: "even (length items) \<longrightarrow> mset kv (items @ [x]) = mset kv items"
  proof
    assume e: "even (length items)"
    then have "even (int (length items))"
      by simp
    then have "(1 + int (length items)) div 2 = int (length items) div 2"
      by presburger
    then have "int (length (items @ [x])) div 2 = int (length items) div 2"
      by simp
    with e show "mset kv (items @ [x]) = mset kv items"
      by (simp only: mset_def zip_slices spec_pairs_snoc)
  qed
  have 5: "get_response tbl kv (PList (PStr ''MSET'' # items)) = mset kv items"
    by (rule get_response_MSET) (rule upper_names)
  from 1 2 3 4 5 show ?thesis by blast
qed

theorem mset_pairs_in_order_witness:
  "list_all (\<lambda>p. hashable (fst p)) (spec_pairs [PStr ''b'', PStr ''2'', PStr ''c'', PStr ''3'', PStr ''d''])
   \<and> mset [(PStr ''a'', PStr ''1'')] [PStr ''b'', PStr ''2'', PStr ''c'', PStr ''3'', PStr ''d''] =
       (Inr (PInt 2), [(PStr ''a'', PStr ''1''), (PStr ''b'', PStr ''2''), (PStr ''c'', PStr ''3'')])"
proof -
  let ?items = "[PStr ''b'', PStr ''2'', PStr ''c'', PStr ''3'', PStr ''d'']"
  have h: "list_all (\<lambda>p. hashable (fst p)) (spec_pairs ?items)"
    by simp
  from mset_pairs_in_order[OF h, where kv = "[(PStr ''a'', PStr ''1'')]" and tbl = "\<lambda>s. s"] h
  show ?thesis by simp
qed

lemma handle_request_bad_tag:
  assumes "b \<notin> {CHR ''+'', CHR ''-'', CHR '':'', CHR ''$'', CHR ''*'', CHR ''%''}"
  shows "handle_request (b # s) = Inl (CommandError ''bad request'')"
  using assms by (simp add: handle_request.simps)

lemma connection_handler_closed:
  assumes "handler_step tbl kv c = (kv', c')" and "status c' \<noteq> Open"
  shows "connection_handler tbl kv c = (kv', c')"
  using assms by (simp add: connection_handler.simps)

text \<open>
  C4. A stream whose next byte is not one of the six tags makes \<^verbatim>\<open>handle_request\<close> raise
  \<^verbatim>\<open>CommandError('bad request')\<close> inside the \<^verbatim>\<open>try\<close> that catches \<^verbatim>\<open>Disconnect\<close> only: the
  handler ends with that exception, writes nothing, and the store is as before. In a
  server of several connections the step changes the status of that connection and
  nothing else.
\<close>

theorem unknown_tag_closes_connection:
  assumes "b \<notin> {CHR ''+'', CHR ''-'', CHR '':'', CHR ''$'', CHR ''*'', CHR ''%''}"
    and "inp c = b # s"
  shows "handle_request (inp c) = Inl (CommandError ''bad request'')
    \<and> handler_step tbl kv c = (kv, c\<lparr>status := Raised (CommandError ''bad request'')\<rparr>)
    \<and> connection_handler tbl kv c = (kv, c\<lparr>status := Raised (CommandError ''bad request'')\<rparr>)
    \<and> out (snd (connection_handler tbl kv c)) = out c
    \<and> (i < length cs \<and> cs ! i = c \<and> status c = Open \<longrightarrow>
          serve tbl i (kv, cs) = (kv, cs[i := c\<lparr>status := Raised (CommandError ''bad request'')\<rparr>]))"
proof -
  from assms(2) handle_request_bad_tag[OF assms(1), of s]
  have 1: "handle_request (inp c) = Inl (CommandError ''bad request'')"
    by simp
  then have 2: "handler_step tbl kv c = (kv, c\<lparr>status := Raised (CommandError ''bad request'')\<rparr>)"
    by (simp add: handler_step_def)
  then have 3: "connection_handler tbl kv c =
      (kv, c\<lparr>status := Raised (CommandError ''bad request'')\<rparr>)"
    by (rule connection_handler_closed) simp
  then have 4: "out (snd (connection_handler tbl kv c)) = out c"
    by simp
  have 5: "i < length cs \<and> cs ! i = c \<and> status c = Open \<longrightarrow>
          serve tbl i (kv, cs) = (kv, cs[i := c\<lparr>status := Raised (CommandError ''bad request'')\<rparr>])"
    using 2 by (simp add: serve_def)
  from 1 2 3 4 5 show ?thesis by blast
qed

theorem unknown_tag_closes_connection_witness:
  "handle_request ''?x'' = Inl (CommandError ''bad request'')
   \<and> connection_handler (\<lambda>s. s) [(PStr ''a'', PInt 1)] \<lparr>inp = ''?x'', out = [], status = Open\<rparr> =
       ([(PStr ''a'', PInt 1)],
        \<lparr>inp = ''?x'', out = [], status = Raised (CommandError ''bad request'')\<rparr>)
   \<and> serve (\<lambda>s. s) 0 ([(PStr ''a'', PInt 1)],
         [\<lparr>inp = ''?x'', out = [], status = Open\<rparr>,
          \<lparr>inp = write_buf (PList [PStr ''FLUSH'']), out = [], status = Open\<rparr>]) =
       ([(PStr ''a'', PInt 1)],
         [\<lparr>inp = ''?x'', out = [], status = Raised (CommandError ''bad request'')\<rparr>,
          \<lparr>inp = write_buf (PList [PStr ''FLUSH'']), out = [], status = Open\<rparr>])"
proof -
  let ?c = "\<lparr>inp = ''?x'', out = [], status = Open\<rparr>"
  let ?d = "\<lparr>inp = write_buf (PList [PStr ''FLUSH'']), out = [], status = Open\<rparr>"
  have b: "CHR ''?'' \<notin> {CHR ''+'', CHR ''-'', CHR '':'', CHR ''$'', CHR ''*'', CHR ''%''}"
    by simp
  have i: "inp ?c = CHR ''?'' # ''x''"
    by simp
  note t = unknown_tag_closes_connection[OF b i, where kv = "[(PStr ''a'', PInt 1)]" and i = 0
      and cs = "[?c, ?d]" and tbl = "\<lambda>s. s"]
  from t have 1: "handle_request ''?x'' = Inl (CommandError ''bad request'')"
    by simp
  from t have 2: "connection_handler (\<lambda>s. s) [(PStr ''a'', PInt 1)] ?c =
      ([(PStr ''a'', PInt 1)], ?c\<lparr>status := Raised (CommandError ''bad request'')\<rparr>)"
    by blast
  from t have 3: "serve (\<lambda>s. s) 0 ([(PStr ''a'', PInt 1)], [?c, ?d]) =
      ([(PStr ''a'', PInt 1)], [?c, ?d][0 := ?c\<lparr>status := Raised (CommandError ''bad request'')\<rparr>])"
    by simp
  from 1 2 3 show ?thesis by simp
qed





section \<open>The round trip of the codec\<close>

subsection \<open>Decimal text\<close>

lemma is_digit_digit_char: "d < 10 \<Longrightarrow> is_digit (digit_char d)"
  by (simp add: is_digit_def digit_char_def between_def)

lemma digit_val_digit_char: "d < 10 \<Longrightarrow> digit_val (digit_char d) = d"
  by (simp add: digit_val_def digit_char_def)

lemma str_nat_digits: "c \<in> set (str_nat n) \<Longrightarrow> is_digit c"
proof (induction n arbitrary: c rule: str_nat.induct)
  case (1 n)
  show ?case
  proof (cases "n < 10")
    case True
    with 1(2) show ?thesis by (simp add: str_nat.simps[of n] is_digit_digit_char)
  next
    case False
    with 1(2) have "c \<in> set (str_nat (n div 10)) \<or> c = digit_char (n mod 10)"
      by (auto simp: str_nat.simps[of n])
    with 1(1)[OF False] show ?thesis by (auto simp: is_digit_digit_char)
  qed
qed

lemma str_nat_nonempty: "str_nat n \<noteq> []"
  by (simp add: str_nat.simps[of n])

lemma digits_acc_digits:
  "(\<And>c. c \<in> set ds \<Longrightarrow> is_digit c) \<Longrightarrow>
     digits_acc a ds = Some (foldl (\<lambda>a c. 10 * a + digit_val c) a ds)"
  by (induction ds arbitrary: a) simp_all

lemma foldl_str_nat: "foldl (\<lambda>a c. 10 * a + digit_val c) 0 (str_nat n) = n"
proof (induction n rule: str_nat.induct)
  case (1 n)
  show ?case
  proof (cases "n < 10")
    case True
    then show ?thesis by (simp add: str_nat.simps[of n] digit_val_digit_char)
  next
    case False
    with 1 show ?thesis by (simp add: str_nat.simps[of n] digit_val_digit_char)
  qed
qed

lemma parse_digits_str_nat: "parse_digits (str_nat n) = Some n"
proof (cases "str_nat n")
  case Nil
  then show ?thesis by (simp add: str_nat_nonempty)
next
  case (Cons c cs)
  then have d: "\<And>x. x \<in> set (c # cs) \<Longrightarrow> is_digit x"
    using str_nat_digits[of _ n] by simp
  then have a: "digits_acc (digit_val c) cs =
      Some (foldl (\<lambda>a c. 10 * a + digit_val c) (digit_val c) cs)"
    by (intro digits_acc_digits) simp
  have v: "foldl (\<lambda>a c. 10 * a + digit_val c) (digit_val c) cs = n"
    using foldl_str_nat[of n] by (simp add: Cons)
  from d[of c] have "is_digit c" by simp
  with a v Cons show ?thesis by (simp add: parse_digits_def)
qed

lemma is_digit_not_special:
  "is_digit c \<Longrightarrow> \<not> is_space c \<and> c \<noteq> CHR ''-'' \<and> c \<noteq> CHR ''+'' \<and> c \<noteq> CR \<and> c \<noteq> LF"
  by (auto simp: is_digit_def is_space_def between_def CR_def LF_def)

lemma str_nat_hd_last: "is_digit (hd (str_nat n))" "is_digit (last (str_nat n))"
  using str_nat_digits[of _ n] str_nat_nonempty[of n] by simp_all

lemma minus_not_space: "\<not> is_space (CHR ''-'')"
  by (simp add: is_space_def)

lemma strip_str_int:
  "rev (dropWhile is_space (rev (dropWhile is_space (str_int n)))) = str_int n"
proof -
  have h: "\<not> is_space (hd (str_int n))"
    using str_nat_hd_last(1) is_digit_not_special
    by (simp add: str_int_def minus_not_space)
  have ne: "str_int n \<noteq> []"
    by (simp add: str_int_def str_nat_nonempty)
  have l: "\<not> is_space (last (str_int n))"
    using str_nat_hd_last(2) is_digit_not_special
    by (simp add: str_int_def str_nat_nonempty)
  from h ne have 1: "dropWhile is_space (str_int n) = str_int n"
    by (cases "str_int n") simp_all
  from l ne have 2: "dropWhile is_space (rev (str_int n)) = rev (str_int n)"
    by (cases "rev (str_int n)") (simp_all add: last_rev[symmetric] hd_rev)
  from 1 2 show ?thesis by simp
qed

lemma py_int_str_int: "py_int (str_int n) = Inr n"
proof (cases "n < 0")
  case True
  then have "str_int n = CHR ''-'' # str_nat (nat (- n))"
    by (simp add: str_int_def)
  with True strip_str_int[of n] show ?thesis
    by (simp add: py_int_def parse_digits_str_nat)
next
  case False
  then have s: "str_int n = str_nat (nat n)"
    by (simp add: str_int_def)
  have "hd (str_nat (nat n)) \<noteq> CHR ''-''" "hd (str_nat (nat n)) \<noteq> CHR ''+''"
    using str_nat_hd_last(1)[of "nat n"] is_digit_not_special by blast+
  with False s strip_str_int[of n] show ?thesis
    by (simp add: py_int_def parse_digits_str_nat str_nat_nonempty)
qed

lemma str_int_chars: "LF \<notin> set (str_int n)" "str_int n \<noteq> []"
  "last (str_int n) \<noteq> CR" "last (str_int n) \<noteq> LF"
proof -
  show "LF \<notin> set (str_int n)"
    using str_nat_digits is_digit_not_special
    by (auto simp: str_int_def LF_def)
  show "str_int n \<noteq> []"
    by (simp add: str_int_def str_nat_nonempty)
  show "last (str_int n) \<noteq> CR" "last (str_int n) \<noteq> LF"
    using str_nat_hd_last(2) is_digit_not_special
    by (auto simp: str_int_def str_nat_nonempty)
qed

subsection \<open>Lines\<close>

lemma readline_line: "LF \<notin> set l \<Longrightarrow> readline (l @ LF # r) = (l @ [LF], r)"
  by (induction l) auto

lemma readline_CRLF: "LF \<notin> set l \<Longrightarrow> readline (l @ CRLF @ r) = (l @ CRLF, r)"
  using readline_line[of "l @ [CR]" r] by (simp add: CRLF_def CR_def LF_def)

lemma rstrip_CRLF: "rstrip (m @ CRLF) = rstrip m"
  by (simp add: rstrip_def CRLF_def)

lemma rstrip_id: "m = [] \<or> (last m \<noteq> CR \<and> last m \<noteq> LF) \<Longrightarrow> rstrip m = m"
proof (cases "rev m")
  case Nil
  then show ?thesis by (simp add: rstrip_def)
next
  case (Cons c cs)
  assume "m = [] \<or> (last m \<noteq> CR \<and> last m \<noteq> LF)"
  with Cons have "c \<noteq> CR \<and> c \<noteq> LF"
    by (auto simp: last_rev[symmetric] simp del: last_rev)
  with Cons have "rev (dropWhile (\<lambda>c. c = CR \<or> c = LF) (rev m)) = rev (rev m)"
    by simp
  then show ?thesis by (simp add: rstrip_def)
qed

lemma read_count_line:
  "readline (str_int n @ CRLF @ r) = (str_int n @ CRLF, r)"
  "py_int (rstrip (str_int n @ CRLF)) = Inr n"
proof -
  show "readline (str_int n @ CRLF @ r) = (str_int n @ CRLF, r)"
    by (rule readline_CRLF) (rule str_int_chars)
  have "rstrip (str_int n) = str_int n"
    by (rule rstrip_id) (simp add: str_int_chars)
  then show "py_int (rstrip (str_int n @ CRLF)) = Inr n"
    by (simp add: rstrip_CRLF py_int_str_int)
qed

subsection \<open>Frames of the values that hold no other value\<close>

lemma decode_utf8: "utf8 s \<Longrightarrow> decode s = Inr s"
  by (simp add: decode_def)

lemma handle_request_PNone: "handle_request (write_buf PNone @ r) = Inr (PNone, r)"
proof -
  have l: "readline (''-1'' @ CRLF @ r) = (''-1'' @ CRLF, r)"
    by (rule readline_CRLF) (simp add: LF_def)
  have "rstrip ''-1'' = ''-1''"
    by (rule rstrip_id) (simp add: CR_def LF_def)
  then have "py_int (rstrip (''-1'' @ CRLF)) = Inr (- 1)"
    by (simp only: rstrip_CRLF) code_simp
  with l show ?thesis
    by (simp add: handle_request.simps handle_string_def)
qed

lemma handle_request_PInt: "handle_request (write_buf (PInt n) @ r) = Inr (PInt n, r)"
  by (simp add: handle_request.simps handle_integer_def read_count_line)

lemma handle_request_PStr:
  assumes "utf8 s"
  shows "handle_request (write_buf (PStr s) @ r) = Inr (PStr s, r)"
proof -
  have w: "write_buf (PStr s) @ r = CHR ''$'' # str_int (int (length s)) @ CRLF @ (s @ CRLF @ r)"
    by simp
  have rd: "read (int (length s) + 2) (s @ CRLF @ r) = Inr (s @ CRLF, r)"
    by (simp add: read_def CRLF_def nat_add_distrib)
  have tk: "length CRLF = 2"
    by (simp add: CRLF_def)
  show ?thesis
    unfolding w using assms
    by (simp add: handle_request.simps handle_string_def read_count_line rd tk decode_utf8)
qed

lemma handle_request_PError:
  assumes "utf8 m" and "line_text m"
  shows "handle_request (write_buf (PError m) @ r) = Inr (PError m, r)"
proof -
  from assms(2) have l: "readline (m @ CRLF @ r) = (m @ CRLF, r)"
    by (intro readline_CRLF) (simp add: line_text_def)
  from assms(2) have "m = [] \<or> (last m \<noteq> CR \<and> last m \<noteq> LF)"
    unfolding line_text_def by (metis last_in_set)
  then have "rstrip (m @ CRLF) = m"
    by (simp add: rstrip_CRLF rstrip_id)
  with l assms(1) show ?thesis
    by (simp add: handle_request.simps handle_error_def decode_utf8)
qed

lemma readline_append: "readline s = (l, r) \<Longrightarrow> l @ r = s"
  by (induction s arbitrary: l r) (auto split: if_splits prod.splits)

lemma readline_butlast: "readline s = (l, r) \<Longrightarrow> LF \<notin> set (butlast l)"
  by (induction s arbitrary: l r) (auto split: if_splits prod.splits)

lemma rstrip_fixed:
  assumes "rstrip m = m"
  shows "m = [] \<or> (last m \<noteq> CR \<and> last m \<noteq> LF)"
proof (cases "rev m")
  case Nil
  then show ?thesis by simp
next
  case (Cons c cs)
  then have m: "m = rev cs @ [c]"
    by (metis rev.simps(2) rev_rev_ident)
  show ?thesis
  proof (cases "c = CR \<or> c = LF")
    case True
    with Cons have "length (rstrip m) \<le> length cs"
      by (simp add: rstrip_def length_dropWhile_le)
    with assms m show ?thesis by simp
  next
    case False
    with m show ?thesis by simp
  qed
qed

text \<open>
  The condition on error messages is exact: the frame of an error decodes to that error
  and is consumed whole if and only if the message holds no LF and does not end in CR.
\<close>

lemma error_frame_roundtrip_iff:
  assumes "utf8 m"
  shows "handle_request (write_buf (PError m) @ r) = Inr (PError m, r) \<longleftrightarrow> line_text m"
proof
  assume "line_text m"
  with assms show "handle_request (write_buf (PError m) @ r) = Inr (PError m, r)"
    by (rule handle_request_PError)
next
  assume a: "handle_request (write_buf (PError m) @ r) = Inr (PError m, r)"
  obtain l r' where rl: "readline (m @ CRLF @ r) = (l, r')"
    by (cases "readline (m @ CRLF @ r)")
  from a rl have e: "handle_error (m @ CRLF @ r) = Inr (PError m, r)"
    by (simp add: handle_request.simps)
  from e rl have d: "decode (rstrip l) = Inr m" and r: "r' = r"
    by (auto simp: handle_error_def split: sum.splits)
  from d have s: "rstrip l = m"
    by (simp add: decode_def split: if_splits)
  from readline_append[OF rl] r have l: "l = m @ CRLF"
    by simp
  from readline_butlast[OF rl] l have 1: "LF \<notin> set m"
    by (simp add: CRLF_def butlast_append)
  from s l have "rstrip m = m"
    by (simp add: rstrip_CRLF)
  from rstrip_fixed[OF this] have 2: "m = [] \<or> last m \<noteq> CR"
    by blast
  from 1 2 show "line_text m"
    by (simp add: line_text_def)
qed

lemma spec_pairs_items_of: "spec_pairs (items_of d) = d"
  by (induction d rule: items_of.induct) simp_all

lemma length_items_of: "length (items_of d) = 2 * length d"
  by (induction d rule: items_of.induct) simp_all

lemma set_items_of: "set (items_of d) = fst ` set d \<union> snd ` set d"
  by (induction d rule: items_of.induct) auto

lemma write_buf_items_of:
  "concat (map (\<lambda>(k, v). write_buf k @ write_buf v) d) = concat (map write_buf (items_of d))"
  by (induction d rule: items_of.induct) simp_all

lemma update_fresh: "k \<notin> fst ` set al \<Longrightarrow> AList.update k v al = al @ [(k, v)]"
  by (induction al) auto

lemma dict_from_distinct:
  "distinct (map fst (acc @ d)) \<Longrightarrow> (\<forall>(k, v) \<in> set d. hashable k) \<Longrightarrow>
     dict_from acc d = Inr (acc @ d)"
proof (induction acc d rule: dict_from.induct)
  case (1 acc)
  show ?case by simp
next
  case (2 acc k v ps)
  from 2(2) have f: "k \<notin> fst ` set acc"
    by auto
  from 2(2) have d: "distinct (map fst (AList.update k v acc @ ps))"
    by (simp add: update_fresh[OF f])
  from 2(3) have h: "hashable k" "\<forall>(k, v) \<in> set ps. hashable k"
    by simp_all
  from 2(1)[OF h(1) d h(2)] h(1) show ?case
    by (simp add: update_fresh[OF f])
qed

lemma handle_requests_frames:
  assumes "\<And>x r. x \<in> set xs \<Longrightarrow> handle_request (write_buf x @ r) = Inr (x, r)"
  shows "handle_requests (length xs) (concat (map write_buf xs) @ r) = Inr (xs, r)"
  using assms
proof (induction xs)
  case Nil
  show ?case by (simp add: handle_requests.simps)
next
  case (Cons x xs)
  have h: "handle_request (write_buf x @ concat (map write_buf xs) @ r) =
      Inr (x, concat (map write_buf xs) @ r)"
    by (rule Cons.prems) simp
  have t: "handle_requests (length xs) (concat (map write_buf xs) @ r) = Inr (xs, r)"
    by (rule Cons.IH) (simp add: Cons.prems)
  show ?case
    by (simp add: handle_requests.simps[of "Suc (length xs)"] h t)
qed

lemma handle_request_PList:
  assumes "\<And>x r. x \<in> set xs \<Longrightarrow> handle_request (write_buf x @ r) = Inr (x, r)"
  shows "handle_request (write_buf (PList xs) @ r) = Inr (PList xs, r)"
proof -
  have w: "write_buf (PList xs) @ r =
      CHR ''*'' # str_int (int (length xs)) @ CRLF @ (concat (map write_buf xs) @ r)"
    by simp
  show ?thesis
    unfolding w
    by (simp add: handle_request.simps handle_array.simps read_count_line
        handle_requests_frames[OF assms])
qed

lemma handle_request_PDict:
  assumes "\<And>x r. x \<in> fst ` set d \<union> snd ` set d \<Longrightarrow>
      handle_request (write_buf x @ r) = Inr (x, r)"
    and "distinct (map fst d)" and "\<forall>(k, v) \<in> set d. hashable k"
  shows "handle_request (write_buf (PDict d) @ r) = Inr (PDict d, r)"
proof -
  have w: "write_buf (PDict d) @ r =
      CHR ''%'' # str_int (int (length d)) @ CRLF @ (concat (map write_buf (items_of d)) @ r)"
    by (simp add: write_buf_items_of)
  have n: "nat (int (length d) * 2) = length (items_of d)"
    by (simp add: length_items_of nat_mult_distrib)
  have e: "handle_requests (length (items_of d)) (concat (map write_buf (items_of d)) @ r) =
      Inr (items_of d, r)"
    by (rule handle_requests_frames) (simp add: assms(1) set_items_of)
  have z: "zip (stride2 (items_of d)) (stride2 (drop 1 (items_of d))) = d"
    by (simp only: zip_slices spec_pairs_items_of)
  have f: "dict_from [] d = Inr d"
    using dict_from_distinct[of "[]" d] assms(2,3) by simp
  have hd: "handle_dict (str_int (int (length d)) @ CRLF @
      (concat (map write_buf (items_of d)) @ r)) = Inr (PDict d, r)"
    by (simp only: handle_dict.simps read_count_line n e z f prod.case sum.case)
  show ?thesis
    unfolding w by (simp add: handle_request.simps hd)
qed

text \<open>
  C1, as the code has it. The frame of an error is its message and CRLF, with nothing to
  say where the message ends: \<^verbatim>\<open>readline\<close> stops at the first LF and \<^verbatim>\<open>rstrip\<close> removes
  every trailing CR and LF. So for a value whose error messages, at any depth, hold no LF
  and do not end in CR, decoding the bytes \<^verbatim>\<open>_write\<close> produced gives the value back and
  consumes exactly those bytes, whatever follows them. (\<open>pyvalue\<close> says that the value is
  one Python can hold: its strings are text, the keys of a \<^verbatim>\<open>dict\<close> are hashable and
  distinct.)
\<close>

theorem decode_encode_roundtrip:
  assumes "pyvalue v" and "line_safe v"
  shows "handle_request (write_buf v @ rest) = Inr (v, rest)"
  using assms
proof (induction v arbitrary: rest)
  case PNone
  show ?case by (rule handle_request_PNone)
next
  case (PInt n)
  show ?case by (rule handle_request_PInt)
next
  case (PStr s)
  then show ?case by (simp only: handle_request_PStr pyvalue.simps)
next
  case (PError m)
  then show ?case by (simp only: handle_request_PError pyvalue.simps line_safe.simps)
next
  case (PList xs)
  show ?case
  proof (rule handle_request_PList)
    fix x r assume x: "x \<in> set xs"
    with PList.prems have "pyvalue x" "line_safe x" by simp_all
    with x show "handle_request (write_buf x @ r) = Inr (x, r)"
      by (rule PList.IH)
  qed
next
  case (PDict d)
  show ?case
  proof (rule handle_request_PDict)
    fix x r assume "x \<in> fst ` set d \<union> snd ` set d"
    then obtain p where p: "p \<in> set d" and x: "x = fst p \<or> x = snd p"
      by auto
    obtain k w where kw: "p = (k, w)" by (cases p)
    from p PDict.prems have ok: "pyvalue (fst p)" "pyvalue (snd p)"
        "line_safe (fst p)" "line_safe (snd p)"
      unfolding kw by auto
    from x show "handle_request (write_buf x @ r) = Inr (x, r)"
    proof
      assume e: "x = fst p"
      then have "x \<in> Basic_BNFs.fsts p" by (simp add: kw)
      from PDict.IH(1)[OF p this] ok e show ?thesis by simp
    next
      assume e: "x = snd p"
      then have "x \<in> Basic_BNFs.snds p" by (simp add: kw)
      from PDict.IH(2)[OF p this] ok e show ?thesis by simp
    qed
  next
    from PDict.prems show "distinct (map fst d)" by simp
  next
    from PDict.prems show "\<forall>(k, v) \<in> set d. hashable k" by auto
  qed
qed

text \<open>
  The claim as stated fails on an error value: a message with an LF inside is cut at the
  LF and the bytes after it are left in the stream; a message that ends in CR loses the
  CR. The server sends such an error itself: to a request whose command name holds an LF
  it answers with that name in the message.
\<close>

theorem error_frame_counterexample:
  "pyvalue (PError [CHR ''a'', LF, CHR ''b''])
   \<and> handle_request (write_buf (PError [CHR ''a'', LF, CHR ''b''])) =
       Inr (PError ''a'', [CHR ''b'', CR, LF])
   \<and> pyvalue (PError [CHR ''a'', CR])
   \<and> handle_request (write_buf (PError [CHR ''a'', CR])) = Inr (PError ''a'', [])
   \<and> out (snd (handler_step (\<lambda>s. s) []
         \<lparr>inp = write_buf (PList [PStr [CHR ''a'', LF, CHR ''b'']]), out = [], status = Open\<rparr>)) =
       write_buf (PError (''Unrecognized command: '' @ [CHR ''A'', LF, CHR ''B'']))"
  by code_simp

theorem decode_encode_roundtrip_witness:
  "pyvalue (PList [PStr ''SET'', PInt (- 15), PNone, PError ''no key'',
      PDict [(PStr ''a'', PList []), (PInt 2, PStr ''b'')]])
   \<and> line_safe (PList [PStr ''SET'', PInt (- 15), PNone, PError ''no key'',
      PDict [(PStr ''a'', PList []), (PInt 2, PStr ''b'')]])
   \<and> handle_request (write_buf (PList [PStr ''SET'', PInt (- 15), PNone, PError ''no key'',
      PDict [(PStr ''a'', PList []), (PInt 2, PStr ''b'')]]) @ ''+rest'') =
     Inr (PList [PStr ''SET'', PInt (- 15), PNone, PError ''no key'',
      PDict [(PStr ''a'', PList []), (PInt 2, PStr ''b'')]], ''+rest'')"
proof -
  let ?v = "PList [PStr ''SET'', PInt (- 15), PNone, PError ''no key'',
      PDict [(PStr ''a'', PList []), (PInt 2, PStr ''b'')]]"
  have p: "pyvalue ?v" by code_simp
  have l: "line_safe ?v" by code_simp
  from p l decode_encode_roundtrip[OF p l, of "''+rest''"] show ?thesis by blast
qed

section \<open>Dict frames with repeated keys\<close>

subsection \<open>\<^verbatim>\<open>dict(...)\<close> over pairs with repeated keys\<close>

lemma dict_from_hashable:
  "list_all (\<lambda>p. hashable (fst p)) ps \<Longrightarrow>
     dict_from acc ps = Inr (foldl (\<lambda>s p. AList.update (fst p) (snd p) s) acc ps)"
  by (induction acc ps rule: dict_from.induct) simp_all

lemma distinct_foldl_update:
  "distinct (map fst acc) \<Longrightarrow>
     distinct (map fst (foldl (\<lambda>s p. AList.update (fst p) (snd p) s) acc ps))"
  by (induction ps arbitrary: acc) (simp_all add: distinct_update)

lemma length_dict:
  assumes "distinct (map fst d)" and "map_of d = map_of (rev ps)"
  shows "length d = card (fst ` set ps)"
proof -
  from assms(1) have "length d = card (dom (map_of d))"
    using distinct_card[of "map fst d"] by (simp add: dom_map_of_conv_image_fst)
  also have "dom (map_of d) = fst ` set ps"
    by (simp add: assms(2) dom_map_of_conv_image_fst)
  finally show ?thesis .
qed

lemma map_fst_spec_pairs: "even (length xs) \<Longrightarrow> map fst (spec_pairs xs) = stride2 xs"
  by (induction xs rule: spec_pairs.induct) simp_all

lemma handle_requests_length:
  "handle_requests n s = Inr (es, r) \<Longrightarrow> length es = n"
proof (induction n arbitrary: s es)
  case 0
  then show ?case by (simp add: handle_requests.simps)
next
  case (Suc n)
  from Suc.prems obtain v r1 where h: "handle_request s = Inr (v, r1)"
    by (cases "handle_request s") (auto simp: handle_requests.simps[of "Suc n"])
  from Suc.prems h obtain vs where t: "handle_requests n r1 = Inr (vs, r)" and e: "es = v # vs"
    by (cases "handle_requests n r1") (auto simp: handle_requests.simps[of "Suc n"])
  from Suc.IH[OF t] e show ?case by simp
qed

text \<open>
  C10. A dict frame with count \<open>n\<close> whose \<open>n\<close> decoded keys (the elements at the even
  places) are hashable and not all different decodes to a dict with fewer than \<open>n\<close>
  pairs, in which each key is bound to the value of its last occurrence; encoding that
  dict writes its own, smaller, count.
\<close>

theorem dict_frame_duplicate_keys:
  assumes "readline s = (line, s1)" and "py_int (rstrip line) = Inr n"
    and "handle_requests (nat (n * 2)) s1 = Inr (es, rest)"
    and "list_all hashable (stride2 es)"
    and "\<not> distinct (stride2 es)"
  shows "\<exists>d. handle_request (CHR ''%'' # s) = Inr (PDict d, rest)
    \<and> int (length (stride2 es)) = n
    \<and> int (length d) < n
    \<and> distinct (map fst d)
    \<and> map_of d = map_of (rev (zip (stride2 es) (stride2 (drop 1 es))))
    \<and> write_buf (PDict d) =
        CHR ''%'' # str_int (int (length d)) @ CRLF @ concat (map write_buf (items_of d))"
proof -
  let ?ps = "spec_pairs es"
  let ?d = "foldl (\<lambda>s p. AList.update (fst p) (snd p) s) [] ?ps"
  from assms(5) have ne: "es \<noteq> []"
    by auto
  from handle_requests_length[OF assms(3)] have len: "length es = nat (n * 2)" .
  with ne have npos: "0 < n"
    by (cases "0 < n") simp_all
  with len have ev: "even (length es)" and half: "length es div 2 = nat n"
    by (simp_all add: nat_mult_distrib)
  from ev have keys: "map fst ?ps = stride2 es"
    by (rule map_fst_spec_pairs)
  from assms(4) keys have h: "list_all (\<lambda>p. hashable (fst p)) ?ps"
    by (simp add: list_all_iff) (metis image_eqI list.set_map)
  have z: "zip (stride2 es) (stride2 (drop 1 es)) = ?ps"
    by (rule zip_slices)
  have df: "dict_from [] ?ps = Inr ?d"
    using h by (rule dict_from_hashable)
  have hd: "handle_dict s = Inr (PDict ?d, rest)"
    by (simp only: handle_dict.simps assms(1,2,3) z df prod.case sum.case)
  have 1: "handle_request (CHR ''%'' # s) = Inr (PDict ?d, rest)"
    by (simp add: handle_request.simps hd)
  have 2: "int (length (stride2 es)) = n"
    using keys[symmetric] half npos by (simp add: length_spec_pairs)
  have dist: "distinct (map fst ?d)"
    by (rule distinct_foldl_update) simp
  have m: "map_of ?d = map_of (rev ?ps)"
    by (simp add: map_of_foldl_update)
  have "length ?d = card (fst ` set ?ps)"
    using dist m by (rule length_dict)
  also have "fst ` set ?ps = set (stride2 es)"
    using keys by (metis list.set_map)
  also have "card (set (stride2 es)) < length (stride2 es)"
    using assms(5) card_distinct[of "stride2 es"] card_length[of "stride2 es"]
    by (cases "card (set (stride2 es)) = length (stride2 es)") simp_all
  finally have 3: "int (length ?d) < n"
    using 2 by simp
  have 5: "write_buf (PDict ?d) =
      CHR ''%'' # str_int (int (length ?d)) @ CRLF @ concat (map write_buf (items_of ?d))"
    by (simp add: write_buf_items_of)
  from 1 2 3 dist m 5 show ?thesis
    unfolding z by blast
qed


theorem dict_frame_duplicate_keys_witness:
  "handle_request (CHR ''%'' # ''2'' @ CRLF @ write_buf (PStr ''a'') @ write_buf (PInt 1)
       @ write_buf (PStr ''a'') @ write_buf (PInt 2)) =
     Inr (PDict [(PStr ''a'', PInt 2)], [])
   \<and> int (length [(PStr ''a'', PInt 2)]) < 2
   \<and> write_buf (PDict [(PStr ''a'', PInt 2)]) =
       CHR ''%'' # ''1'' @ CRLF @ write_buf (PStr ''a'') @ write_buf (PInt 2)"
proof -
  let ?s1 = "write_buf (PStr ''a'') @ write_buf (PInt 1)
       @ write_buf (PStr ''a'') @ write_buf (PInt 2)"
  let ?es = "[PStr ''a'', PInt 1, PStr ''a'', PInt 2]"
  have a1: "readline (''2'' @ CRLF @ ?s1) = (''2'' @ CRLF, ?s1)"
    by code_simp
  have a2: "py_int (rstrip (''2'' @ CRLF)) = Inr 2"
    by code_simp
  have a3: "handle_requests (nat (2 * 2)) ?s1 = Inr (?es, [])"
    by code_simp
  have a4: "list_all hashable (stride2 ?es)"
    by simp
  have a5: "\<not> distinct (stride2 ?es)"
    by simp
  from dict_frame_duplicate_keys[OF a1 a2 a3 a4 a5]
  obtain d where d: "handle_request (CHR ''%'' # ''2'' @ CRLF @ ?s1) = Inr (PDict d, [])"
      and l: "int (length d) < 2"
    by blast
  have "handle_request (CHR ''%'' # ''2'' @ CRLF @ ?s1) =
      Inr (PDict [(PStr ''a'', PInt 2)], [])"
    by code_simp
  with d have e: "d = [(PStr ''a'', PInt 2)]"
    by simp
  have w: "write_buf (PDict [(PStr ''a'', PInt 2)]) =
       CHR ''%'' # ''1'' @ CRLF @ write_buf (PStr ''a'') @ write_buf (PInt 2)"
    by code_simp
  from d l e w show ?thesis by simp
qed

end
